theory Spec2Isabelle
  imports Complex_Main "HOL-Library.Word" "HOL-Library.Log_Nat"
begin

unbundle bit_operations_syntax

section \<open>Strings and the C library\<close>

text \<open>
  A \<open>std::string\<close> is a list of bytes (\<^typ>\<open>char\<close>); \<open>of_char\<close> reads a byte as
  the unsigned value \<open>0..255\<close>.  \<open>substr\<close> is \<open>std::string::substr(pos, n)\<close>, which
  clips \<open>n\<close> at the end of the string, for \<open>pos \<le> size()\<close>; that no call of the
  tokenizer has \<open>pos > size()\<close>, where it throws, is \<open>bert_tokenize_chk_ok\<close> below.
\<close>

definition substr :: "string \<Rightarrow> nat \<Rightarrow> nat \<Rightarrow> string" where
  "substr s pos n = take n (drop pos s)"

text \<open>
  \<open>ispunct\<close> and \<open>isspace\<close> of the C library in the "C" locale (the program never
  calls \<open>setlocale\<close>): no byte above \<open>0x7f\<close> is classified.
\<close>

definition ispunct :: "char \<Rightarrow> bool" where
  "ispunct c = (let n = (of_char c :: nat) in
     (33 \<le> n \<and> n \<le> 47) \<or> (58 \<le> n \<and> n \<le> 64) \<or> (91 \<le> n \<and> n \<le> 96) \<or> (123 \<le> n \<and> n \<le> 126))"

definition isspace :: "char \<Rightarrow> bool" where
  "isspace c = (let n = (of_char c :: nat) in n = 32 \<or> (9 \<le> n \<and> n \<le> 13))"

section \<open>Data structures\<close>

text \<open>
  \<open>bert_token\<close> is \<open>int32_t\<close>; the tokenizer only stores vocabulary indices and the
  constants 100, 101 and 102 in it, so no arithmetic on tokens can overflow.
\<close>

type_synonym bert_token = int
type_synonym bert_tokens = "bert_token list"
type_synonym bert_batch = "bert_tokens list"

record bert_hparams =
  n_vocab :: int
  n_max_tokens :: int
  n_embd :: int
  n_intermediate :: int
  n_head :: int
  n_layer :: int
  layer_norm_eps :: "32 word"

record bert_vocab =
  token_to_id :: "string \<rightharpoonup> bert_token"
  subword_token_to_id :: "string \<rightharpoonup> bert_token"
  id_to_token :: "bert_token \<rightharpoonup> string"
  id_to_subword_token :: "bert_token \<rightharpoonup> string"

section \<open>Normalizer\<close>

definition utf8_len :: "char \<Rightarrow> nat" where
  "utf8_len src = [1, 1, 1, 1, 1, 1, 1, 1, 1, 1, 1, 1, 2, 2, 3, 4] ! (of_char src div 16)"

text \<open>
  The keys of \<open>accentMap\<close> are the UTF-8 encodings of 52 Latin-1 letters, each the byte
  \<open>0xC3\<close> followed by one more byte; the table keeps the order of the source.
\<close>

definition accent_table :: "(string \<times> char) list" where
  "accent_table =
    [([CHR 0xC3, CHR 0x80], CHR ''A''), ([CHR 0xC3, CHR 0x81], CHR ''A''),
     ([CHR 0xC3, CHR 0x82], CHR ''A''), ([CHR 0xC3, CHR 0x83], CHR ''A''),
     ([CHR 0xC3, CHR 0x84], CHR ''A''), ([CHR 0xC3, CHR 0x85], CHR ''A''),
     ([CHR 0xC3, CHR 0xA0], CHR ''a''), ([CHR 0xC3, CHR 0xA1], CHR ''a''),
     ([CHR 0xC3, CHR 0xA2], CHR ''a''), ([CHR 0xC3, CHR 0xA3], CHR ''a''),
     ([CHR 0xC3, CHR 0xA4], CHR ''a''), ([CHR 0xC3, CHR 0xA5], CHR ''a''),
     ([CHR 0xC3, CHR 0x88], CHR ''E''), ([CHR 0xC3, CHR 0x89], CHR ''E''),
     ([CHR 0xC3, CHR 0x8A], CHR ''E''), ([CHR 0xC3, CHR 0x8B], CHR ''E''),
     ([CHR 0xC3, CHR 0xA8], CHR ''e''), ([CHR 0xC3, CHR 0xA9], CHR ''e''),
     ([CHR 0xC3, CHR 0xAA], CHR ''e''), ([CHR 0xC3, CHR 0xAB], CHR ''e''),
     ([CHR 0xC3, CHR 0x8C], CHR ''I''), ([CHR 0xC3, CHR 0x8D], CHR ''I''),
     ([CHR 0xC3, CHR 0x8E], CHR ''I''), ([CHR 0xC3, CHR 0x8F], CHR ''I''),
     ([CHR 0xC3, CHR 0xAC], CHR ''i''), ([CHR 0xC3, CHR 0xAD], CHR ''i''),
     ([CHR 0xC3, CHR 0xAE], CHR ''i''), ([CHR 0xC3, CHR 0xAF], CHR ''i''),
     ([CHR 0xC3, CHR 0x92], CHR ''O''), ([CHR 0xC3, CHR 0x93], CHR ''O''),
     ([CHR 0xC3, CHR 0x94], CHR ''O''), ([CHR 0xC3, CHR 0x95], CHR ''O''),
     ([CHR 0xC3, CHR 0x96], CHR ''O''), ([CHR 0xC3, CHR 0xB2], CHR ''o''),
     ([CHR 0xC3, CHR 0xB3], CHR ''o''), ([CHR 0xC3, CHR 0xB4], CHR ''o''),
     ([CHR 0xC3, CHR 0xB5], CHR ''o''), ([CHR 0xC3, CHR 0xB6], CHR ''o''),
     ([CHR 0xC3, CHR 0x99], CHR ''U''), ([CHR 0xC3, CHR 0x9A], CHR ''U''),
     ([CHR 0xC3, CHR 0x9B], CHR ''U''), ([CHR 0xC3, CHR 0x9C], CHR ''U''),
     ([CHR 0xC3, CHR 0xB9], CHR ''u''), ([CHR 0xC3, CHR 0xBA], CHR ''u''),
     ([CHR 0xC3, CHR 0xBB], CHR ''u''), ([CHR 0xC3, CHR 0xBC], CHR ''u''),
     ([CHR 0xC3, CHR 0x9D], CHR ''Y''), ([CHR 0xC3, CHR 0xBD], CHR ''y''),
     ([CHR 0xC3, CHR 0x87], CHR ''C''), ([CHR 0xC3, CHR 0xA7], CHR ''c''),
     ([CHR 0xC3, CHR 0x91], CHR ''N''), ([CHR 0xC3, CHR 0xB1], CHR ''n'')]"

definition accentMap :: "string \<rightharpoonup> char" where
  "accentMap = map_of accent_table"

lemma of_char_div16: "of_char c div 16 < (16::nat)"
proof -
  have "of_char c < (256::nat)"
    using of_char_mod_256 [of c, where ?'a = nat]
    by (metis mod_less_divisor zero_less_numeral)
  then show ?thesis by (simp add: div_less_iff_less_mult)
qed

lemma utf8_len_eq:
  "utf8_len c = (if (of_char c :: nat) < 192 then 1 else if (of_char c :: nat) < 224 then 2
                 else if (of_char c :: nat) < 240 then 3 else 4)"
proof -
  have "\<forall>k\<in>set [0..<16]. ([1, 1, 1, 1, 1, 1, 1, 1, 1, 1, 1, 1, 2, 2, 3, 4] ! k :: nat) =
          (if k < 12 then 1 else if k < 14 then 2 else if k < 15 then 3 else 4)"
    by code_simp
  then have "utf8_len c =
      (if of_char c div 16 < (12::nat) then 1 else if of_char c div 16 < (14::nat) then 2
       else if of_char c div 16 < (15::nat) then 3 else 4)"
    using of_char_div16 [of c] unfolding utf8_len_def by simp
  then show ?thesis by (simp add: div_less_iff_less_mult)
qed

lemma utf8_len_pos: "0 < utf8_len c"
  by (simp add: utf8_len_eq)

lemma cursor_advance: "i < n \<Longrightarrow> n - (i + utf8_len c) < n - i"
  using utf8_len_pos [of c] by arith

function strip_accents_loop :: "string \<Rightarrow> nat \<Rightarrow> string \<Rightarrow> string" where
  "strip_accents_loop inputString i resultString =
     (if i < length inputString then
        (let len = utf8_len (inputString ! i);
             curChar = substr inputString i len
         in strip_accents_loop inputString (i + len)
              (case accentMap curChar of
                 Some a \<Rightarrow> resultString @ [a]
               | None \<Rightarrow> resultString @ curChar))
      else resultString)"
  by pat_completeness auto
termination
  by (relation "measure (\<lambda>(s, i, r). length s - i)") (auto simp: cursor_advance)

declare strip_accents_loop.simps [simp del]

definition strip_accents :: "string \<Rightarrow> string" where
  "strip_accents inputString = strip_accents_loop inputString 0 []"


text \<open>
  The lower-casing loop of \<open>bert_normalize_prompt\<close>: the cursor advances by
  \<open>utf8_len\<close> of the byte it has just (possibly) rewritten.  \<open>char\<close> is signed in
  the source, so bytes above \<open>0x7f\<close> are negative and fail \<open>c >= 'A'\<close>; read as
  unsigned they fail \<open>c <= 'Z'\<close> instead.
\<close>

function lower_loop :: "string \<Rightarrow> nat \<Rightarrow> string" where
  "lower_loop text2 i =
     (if i < length text2 then
        (let c = text2 ! i;
             text2' = (if (of_char CHR ''A'' :: nat) \<le> of_char c \<and> (of_char c :: nat) \<le> of_char CHR ''Z''
                       then text2[i := char_of ((of_char c :: nat) - of_char CHR ''A'' + of_char CHR ''a'')]
                       else text2)
         in lower_loop text2' (i + utf8_len (text2' ! i)))
      else text2)"
  by pat_completeness auto
termination
  by (relation "measure (\<lambda>(s, i). length s - i)") (auto simp: cursor_advance)

declare lower_loop.simps [simp del]

definition bert_normalize_prompt :: "string \<Rightarrow> string" where
  "bert_normalize_prompt text = lower_loop (strip_accents text) 0"

section \<open>Tokenizer\<close>

text \<open>
  \<open>is_chinese_char\<close>: the loop over the continuation bytes returns \<open>None\<close> where the
  source returns \<open>false\<close> early.  \<open>codepoint\<close> is an \<open>unsigned int\<close> holding at most
  21 bits, so no shift overflows.  \<open>str[0]\<close> of an empty \<open>std::string\<close> is the
  terminating NUL.
\<close>

function cont_loop :: "string \<Rightarrow> nat \<Rightarrow> nat \<Rightarrow> nat \<Rightarrow> nat option" where
  "cont_loop str num_bytes j codepoint =
     (if j < num_bytes then
        (if j \<ge> length str then None
         else (let next_ch = (of_char (str ! j) :: nat) in
               if drop_bit 6 next_ch \<noteq> 2 then None
               else cont_loop str num_bytes (j + 1) (push_bit 6 codepoint OR (next_ch AND 0x3f))))
      else Some codepoint)"
  by pat_completeness auto
termination
  by (relation "measure (\<lambda>(s, n, j, c). n - j)") auto

declare cont_loop.simps [simp del]

definition in_cjk_ranges :: "nat \<Rightarrow> bool" where
  "in_cjk_ranges codepoint =
    ((codepoint \<ge> 0x4E00 \<and> codepoint \<le> 0x9FFF) \<or>
     (codepoint \<ge> 0x3400 \<and> codepoint \<le> 0x4DBF) \<or>
     (codepoint \<ge> 0x20000 \<and> codepoint \<le> 0x2A6DF) \<or>
     (codepoint \<ge> 0x2A700 \<and> codepoint \<le> 0x2B73F) \<or>
     (codepoint \<ge> 0x2B740 \<and> codepoint \<le> 0x2B81F) \<or>
     (codepoint \<ge> 0x2B920 \<and> codepoint \<le> 0x2CEAF) \<or>
     (codepoint \<ge> 0xF900 \<and> codepoint \<le> 0xFAFF) \<or>
     (codepoint \<ge> 0x2F800 \<and> codepoint \<le> 0x2FA1F) \<or>
     (codepoint \<ge> 0x3000 \<and> codepoint \<le> 0x303F) \<or>
     (codepoint \<ge> 0xFF00 \<and> codepoint \<le> 0xFFEF))"

definition is_chinese_char :: "string \<Rightarrow> bool" where
  "is_chinese_char str =
    (let ch = (if str = [] then 0 else (of_char (str ! 0) :: nat));
         (codepoint, num_bytes) =
           (if ch \<le> 0x7f then (ch, 1)
            else if drop_bit 5 ch = 0x06 then (ch AND 0x1f, 2)
            else if drop_bit 4 ch = 0x0e then (ch AND 0x0f, 3)
            else if drop_bit 3 ch = 0x1e then (ch AND 0x07, 4)
            else (0, 0 :: nat))
     in case cont_loop str num_bytes 1 codepoint of
          None \<Rightarrow> False
        | Some codepoint' \<Rightarrow> in_cjk_ranges codepoint')"

text \<open>
  \<open>bert_tokenize\<close> reads only the vocabulary of its context, so the model takes the
  vocabulary; its cap is called \<open>n_max\<close> here (\<open>n_max_tokens\<close> in the source, which
  is also the name of a field of \<open>bert_hparams\<close>).  The cursors \<open>i\<close>, \<open>j\<close>, \<open>l\<close>
  and \<open>r\<close> are \<open>int\<close> in the source and never negative: \<open>nat\<close>.  The counter
  \<open>t\<close> and the cap are \<open>int32_t\<close>: \<open>int\<close>, as \<open>t\<close> is bounded by the length of
  the text and \<open>n_max_tokens - 1\<close> overflows for \<open>INT_MIN\<close> only.

  Stage A: spaces around punctuation and Chinese characters.
\<close>

function presplit_loop :: "string \<Rightarrow> nat \<Rightarrow> string \<Rightarrow> string" where
  "presplit_loop ori_str i new_str =
     (if i < length ori_str then
        (let utf_char_len = utf8_len (ori_str ! i) in
         if utf_char_len = 1 \<and> ispunct (ori_str ! i) then
           presplit_loop ori_str (i + 1) (new_str @ '' '' @ [ori_str ! i] @ '' '')
         else if utf_char_len = 3 \<and> is_chinese_char (substr ori_str i 3) then
           presplit_loop ori_str (i + 3) (new_str @ '' '' @ substr ori_str i 3 @ '' '')
         else
           presplit_loop ori_str (i + 1) (new_str @ [ori_str ! i]))
      else new_str)"
  by pat_completeness auto
termination
  by (relation "measure (\<lambda>(s, i, r). length s - i)") auto

declare presplit_loop.simps [simp del]

text \<open>
  Stage B: the split on whitespace, with the cursors \<open>l\<close> and \<open>r\<close> of the source; the
  \<open>else\<close> branch is the code after the loop, which pushes the last word.
\<close>

function split_loop :: "string \<Rightarrow> nat \<Rightarrow> nat \<Rightarrow> string list \<Rightarrow> string list" where
  "split_loop new_str l r words =
     (if r < length new_str then
        (if isspace (new_str ! r) then
           split_loop new_str (r + 1) (r + 1)
             (if r > l then words @ [substr new_str l (r - l)] else words)
         else split_loop new_str l (r + 1) words)
      else (if r > l then words @ [substr new_str l (r - l)] else words))"
  by pat_completeness auto
termination
  by (relation "measure (\<lambda>(s, l, r, w). length s - r)") auto

declare split_loop.simps [simp del]

text \<open>
  Stage C.  \<open>match_loop\<close> is the inner \<open>while (j > i)\<close>: the longest \<open>word[i..j)\<close> in
  the active map, with its end \<open>j\<close>, or \<open>None\<close> when the loop runs down to \<open>j = i\<close>.
\<close>

function match_loop :: "(string \<rightharpoonup> bert_token) \<Rightarrow> string \<Rightarrow> nat \<Rightarrow> nat \<Rightarrow> (nat \<times> bert_token) option" where
  "match_loop token_map word i j =
     (if j > i then
        (case token_map (substr word i (j - i)) of
           Some tok \<Rightarrow> Some (j, tok)
         | None \<Rightarrow> match_loop token_map word i (j - 1))
      else None)"
  by pat_completeness auto
termination
  by (relation "measure (\<lambda>(m, w, i, j). j - i)") auto

declare match_loop.simps [simp del]

lemma match_loop_bounds:
  "match_loop token_map word i j = Some (j', tok) \<Longrightarrow> i < j' \<and> j' \<le> j"
proof (induction token_map word i j rule: match_loop.induct)
  case (1 token_map word i j)
  note unfold = match_loop.simps [of token_map word i j]
  show ?case
  proof (cases "j > i")
    case True
    show ?thesis
    proof (cases "token_map (substr word i (j - i))")
      case None
      with True "1.prems" have "match_loop token_map word i (j - 1) = Some (j', tok)"
        by (simp add: unfold)
      with "1.IH" [OF True None] show ?thesis by arith
    next
      case (Some a)
      with True "1.prems" show ?thesis by (simp add: unfold)
    qed
  next
    case False
    with "1.prems" show ?thesis by (simp add: unfold)
  qed
qed

text \<open>
  The labelled loop \<open>loop: while (i < n)\<close>.  The state is the cursor \<open>i\<close>, the active
  map \<open>token_map\<close> (in the source a pointer to one of the two maps of the vocabulary),
  the output \<open>tokens\<close> and the counter \<open>t\<close>.  \<open>wordpiece_step\<close> is the body of the
  loop below the cap test: a match pushes the id and moves the cursor to \<open>j\<close>; after the
  inner loop has failed, \<open>j = i\<close> holds, so the source's \<open>if (j == i)\<close> is always taken.
  \<open>goto loop\<close> re-enters the \<open>while\<close> at its test, so both ways end the iteration.
\<close>

type_synonym scan_state = "nat \<times> (string \<rightharpoonup> bert_token) \<times> bert_tokens \<times> int"

definition wordpiece_step :: "bert_vocab \<Rightarrow> string \<Rightarrow> scan_state \<Rightarrow> scan_state" where
  "wordpiece_step vocab word st =
     (case st of (i, token_map, tokens, t) \<Rightarrow>
        (case match_loop token_map word i (length word) of
           Some (j, tok) \<Rightarrow> (j, subword_token_to_id vocab, tokens @ [tok], t + 1)
         | None \<Rightarrow> (i + 1, subword_token_to_id vocab, tokens, t)))"

definition scan_continues :: "int \<Rightarrow> string \<Rightarrow> scan_state \<Rightarrow> bool" where
  "scan_continues n_max word st =
     (case st of (i, token_map, tokens, t) \<Rightarrow> i < length word \<and> \<not> t \<ge> n_max - 1)"

lemma wordpiece_step_cursor:
  assumes "i < length word"
  shows "i < fst (wordpiece_step vocab word (i, token_map, tokens, t))"
    and "fst (wordpiece_step vocab word (i, token_map, tokens, t)) \<le> length word"
  using assms
  by (auto simp: wordpiece_step_def split: option.splits dest: match_loop_bounds)

function wordpiece_loop :: "bert_vocab \<Rightarrow> int \<Rightarrow> string \<Rightarrow> scan_state \<Rightarrow> scan_state" where
  "wordpiece_loop vocab n_max word st =
     (if scan_continues n_max word st
      then wordpiece_loop vocab n_max word (wordpiece_step vocab word st)
      else st)"
  by pat_completeness auto
termination
proof (relation "measure (\<lambda>(vocab, n_max, word, st). length word - fst st)")
  show "wf (measure (\<lambda>(vocab, n_max, word, st). length word - fst st))"
    by simp
next
  fix vocab :: bert_vocab and n_max :: int and word :: string and st :: scan_state
  assume go: "scan_continues n_max word st"
  obtain i token_map tokens t where st: "st = (i, token_map, tokens, t)"
    by (cases st) auto
  from go st have "i < length word"
    by (simp add: scan_continues_def)
  from wordpiece_step_cursor [OF this, of vocab token_map tokens t] st
  show "((vocab, n_max, word, wordpiece_step vocab word st), (vocab, n_max, word, st))
          \<in> measure (\<lambda>(vocab, n_max, word, st). length word - fst st)"
    by simp
qed

declare wordpiece_loop.simps [simp del]

text \<open>
  The same loop with a bound on the number of iterations: \<open>None\<close> when the bound is
  used up while the loop test still holds.
\<close>

fun wordpiece_fuel :: "nat \<Rightarrow> bert_vocab \<Rightarrow> int \<Rightarrow> string \<Rightarrow> scan_state \<Rightarrow> scan_state option" where
  "wordpiece_fuel 0 vocab n_max word st =
     (if scan_continues n_max word st then None else Some st)"
| "wordpiece_fuel (Suc k) vocab n_max word st =
     (if scan_continues n_max word st
      then wordpiece_fuel k vocab n_max word (wordpiece_step vocab word st)
      else Some st)"

text \<open>One iteration of \<open>for (const auto &word : words)\<close>, on the pair \<open>(tokens, t)\<close>.\<close>

definition tokenize_word :: "bert_vocab \<Rightarrow> int \<Rightarrow> string \<Rightarrow> bert_tokens \<times> int \<Rightarrow> bert_tokens \<times> int" where
  "tokenize_word vocab n_max word st =
     (case st of (tokens, t) \<Rightarrow>
        if length word = 0 then (tokens, t)
        else (let prev_t = t in
              case wordpiece_loop vocab n_max word (0, token_to_id vocab, tokens, t) of
                (i, token_map, tokens', t') \<Rightarrow>
                  if prev_t = t' then (tokens' @ [100], t' + 1) else (tokens', t')))"

definition presplit :: "string \<Rightarrow> string" where
  "presplit ori_str = presplit_loop ori_str 0 []"

definition split_words :: "string \<Rightarrow> string list" where
  "split_words new_str = split_loop new_str 0 0 []"

definition bert_tokenize :: "bert_vocab \<Rightarrow> string \<Rightarrow> int \<Rightarrow> bert_tokens" where
  "bert_tokenize vocab text n_max =
     (let cls_tok_id = 101; sep_tok_id = 102;
          ori_str = bert_normalize_prompt text;
          new_str = presplit ori_str;
          words = split_words new_str;
          (tokens, t) = fold (tokenize_word vocab n_max) words ([cls_tok_id], 1)
      in tokens @ [sep_tok_id])"

text \<open>A small vocabulary for the concrete evaluations below.\<close>

definition example_vocab :: bert_vocab where
  "example_vocab =
     \<lparr>token_to_id = map_of [(''a'', 7), (''b'', 8), (''un'', 10), (''hello'', 11)],
      subword_token_to_id = map_of [(''believable'', 20), (''b'', 21)],
      id_to_token = Map.empty, id_to_subword_token = Map.empty\<rparr>"

section \<open>Loader\<close>

text \<open>
  The key/value metadata of the container, as the loader sees it through
  \<open>gguf_find_key\<close> and the typed getters.  A \<open>uint32\<close> is a \<open>32 word\<close>; a
  \<open>float\<close> is kept as its bit pattern, nothing below computes with it.  \<open>get_key_idx\<close>
  throws when the key is absent (\<open>Missing_key\<close>); the typed getter of the container
  library asserts the type of the value (\<open>Wrong_type\<close>).
\<close>

datatype gguf_value = U32 "32 word" | F32 "32 word" | Str string | Arr "string list"

type_synonym gguf_context = "string \<rightharpoonup> gguf_value"

datatype load_error = Missing_key string | Wrong_type string

definition get_u32 :: "gguf_context \<Rightarrow> string \<Rightarrow> load_error + 32 word" where
  "get_u32 ctx key =
     (case ctx key of
        None \<Rightarrow> Inl (Missing_key key)
      | Some (U32 w) \<Rightarrow> Inr w
      | Some _ \<Rightarrow> Inl (Wrong_type key))"

definition get_f32 :: "gguf_context \<Rightarrow> string \<Rightarrow> load_error + 32 word" where
  "get_f32 ctx key =
     (case ctx key of
        None \<Rightarrow> Inl (Missing_key key)
      | Some (F32 w) \<Rightarrow> Inr w
      | Some _ \<Rightarrow> Inl (Wrong_type key))"

definition bind_load :: "load_error + 'a \<Rightarrow> ('a \<Rightarrow> load_error + 'b) \<Rightarrow> load_error + 'b" where
  "bind_load m f = (case m of Inl e \<Rightarrow> Inl e | Inr x \<Rightarrow> f x)"

text \<open>
  The block \<open>load hparams\<close> of \<open>bert_load_from_file\<close>: seven lookups in the order of
  the source, each \<open>uint32\<close> stored into an \<open>int32_t\<close> field (\<open>sint\<close>).  The block
  compares no two values with each other, and nothing after it in the loader reads
  \<open>n_embd\<close> or \<open>n_head\<close> before the graph builder does.
\<close>

definition load_hparams :: "gguf_context \<Rightarrow> load_error + bert_hparams" where
  "load_hparams ctx =
     bind_load (get_u32 ctx ''vocab_size'') (\<lambda>v.
     bind_load (get_u32 ctx ''max_position_embedding'') (\<lambda>m.
     bind_load (get_u32 ctx ''hidden_size'') (\<lambda>e.
     bind_load (get_u32 ctx ''intermediate_size'') (\<lambda>i.
     bind_load (get_u32 ctx ''num_attention_heads'') (\<lambda>h.
     bind_load (get_u32 ctx ''num_hidden_layers'') (\<lambda>l.
     bind_load (get_f32 ctx ''layer_norm_eps'') (\<lambda>eps.
       Inr \<lparr>n_vocab = sint v, n_max_tokens = sint m, n_embd = sint e,
            n_intermediate = sint i, n_head = sint h, n_layer = sint l,
            layer_norm_eps = eps\<rparr>)))))))"

text \<open>
  \<open>const int d_head = n_embd / n_head\<close> in \<open>bert_build_graph\<close>: C++ division
  truncates towards zero; dividing by zero, and \<open>INT_MIN / -1\<close>, are undefined
  (\<open>None\<close>).
\<close>

definition c_div :: "int \<Rightarrow> int \<Rightarrow> int" where
  "c_div a b = (if (a < 0) = (b < 0) then \<bar>a\<bar> div \<bar>b\<bar> else - (\<bar>a\<bar> div \<bar>b\<bar>))"

definition d_head :: "bert_hparams \<Rightarrow> int option" where
  "d_head hparams =
     (if n_head hparams = 0 \<or> (n_embd hparams = - (2 ^ 31) \<and> n_head hparams = - 1) then None
      else Some (c_div (n_embd hparams) (n_head hparams)))"

text \<open>
  The block \<open>load vocab\<close>, on the array of strings stored under
  \<open>tokenizer.ggml.tokens\<close>.  \<open>word[0]\<close> and \<open>word[1]\<close> of a shorter string read the
  terminating NUL, which is not \<open>'#'\<close>.  The first \<open>if\<close> has no \<open>else\<close>: the second
  \<open>if\<close> runs for every entry.
\<close>

definition has_subword_prefix :: "string \<Rightarrow> bool" where
  "has_subword_prefix word =
     (case word of c0 # c1 # _ \<Rightarrow> c0 = CHR ''#'' \<and> c1 = CHR ''#'' | _ \<Rightarrow> False)"

definition load_vocab_entry :: "nat \<Rightarrow> string \<Rightarrow> bert_vocab \<Rightarrow> bert_vocab" where
  "load_vocab_entry i word vocab =
     (let vocab1 =
            (if has_subword_prefix word
             then vocab\<lparr>subword_token_to_id := (subword_token_to_id vocab)(drop 2 word \<mapsto> int i),
                        id_to_subword_token := (id_to_subword_token vocab)(int i \<mapsto> word)\<rparr>
             else vocab)
      in if token_to_id vocab1 word = None
         then vocab1\<lparr>token_to_id := (token_to_id vocab1)(word \<mapsto> int i),
                     id_to_token := (id_to_token vocab1)(int i \<mapsto> word)\<rparr>
         else vocab1)"

function load_vocab_loop :: "string list \<Rightarrow> nat \<Rightarrow> bert_vocab \<Rightarrow> bert_vocab" where
  "load_vocab_loop token_list i vocab =
     (if i < length token_list
      then load_vocab_loop token_list (i + 1) (load_vocab_entry i (token_list ! i) vocab)
      else vocab)"
  by pat_completeness auto
termination
  by (relation "measure (\<lambda>(ts, i, v). length ts - i)") auto

declare load_vocab_loop.simps [simp del]

definition empty_vocab :: bert_vocab where
  "empty_vocab = \<lparr>token_to_id = Map.empty, subword_token_to_id = Map.empty,
                  id_to_token = Map.empty, id_to_subword_token = Map.empty\<rparr>"

definition load_vocab :: "string list \<Rightarrow> bert_vocab" where
  "load_vocab token_list = load_vocab_loop token_list 0 empty_vocab"

section \<open>Graph builder and executor\<close>

text \<open>
  The \<open>float\<close> values that \<open>bert_build_graph\<close> writes: \<open>0.0f\<close>, \<open>1.0f\<close> and
  \<open>1 / (float)cur_len\<close>.  A finite binary32 number is modelled by the real number it
  denotes; it has 24 significant bits, and an operation returns the binary32 number nearest
  to the exact result, a tie going to the one with an even significand (the rounding of
  IEEE 754 that a program gets when it does not change the mode).

  \<open>round_even p q\<close> is the integer nearest to \<open>p / q\<close>, ties to even.

  \<open>float_cast n\<close> is \<open>(float)n\<close> for an \<open>int\<close> \<open>n \<ge> 0\<close>: with \<open>k\<close> the number of bits
  of \<open>n\<close> (\<open>floorlog 2 n\<close>), \<open>n\<close> itself when \<open>k \<le> 24\<close>, and otherwise \<open>n\<close> rounded
  to a multiple of \<open>2 ^ (k - 24)\<close>.  The result is an integer.

  \<open>float_recip d\<close> is the \<open>float\<close> division \<open>1 / d\<close> (the \<open>int\<close> 1 is converted to
  \<open>1.0f\<close>) for an integer \<open>d \<ge> 1\<close> of \<open>k\<close> bits: as \<open>2 ^ (k - 1) \<le> d < 2 ^ k\<close>, the
  quotient scaled by \<open>2 ^ (k + 23)\<close> lies between \<open>2 ^ 23\<close> (excluded) and \<open>2 ^ 24\<close>, so
  rounding it to an integer keeps 24 significant bits.  For \<open>d \<le> 2 ^ 31\<close> the result
  is a normal number, at least \<open>2 ^ - 31\<close>.
\<close>

definition round_even :: "nat \<Rightarrow> nat \<Rightarrow> nat" where
  "round_even p q =
     (let m = p div q; r = p mod q
      in if q < 2 * r \<or> (2 * r = q \<and> odd m) then m + 1 else m)"

definition float_cast :: "nat \<Rightarrow> nat" where
  "float_cast n =
     (let k = floorlog 2 n
      in if k \<le> 24 then n else round_even n (2 ^ (k - 24)) * 2 ^ (k - 24))"

definition float_recip :: "nat \<Rightarrow> real" where
  "float_recip d =
     (let k = floorlog 2 d
      in real (round_even (2 ^ (k + 23)) d) / 2 ^ (k + 23))"

text \<open>
  The four input arrays that \<open>bert_build_graph\<close> fills and copies into the input
  tensors.  The cells of the two \<open>float\<close> arrays hold the reals that their binary32
  contents denote.
\<close>

record graph_inputs =
  token_layer_data :: "int list"
  pad_mask_data :: "real list"
  pos_data :: "int list"
  sum_data :: "real list"

text \<open>The body of the inner loop, for row \<open>ba\<close> and position \<open>i\<close>.\<close>

definition fill_cell :: "bert_batch \<Rightarrow> nat \<Rightarrow> nat \<Rightarrow> nat \<Rightarrow> graph_inputs \<Rightarrow> graph_inputs" where
  "fill_cell batch cur_max_len ba i g =
     (let cur_len = length (batch ! ba);
          g1 = (if i < cur_len
                then g\<lparr>token_layer_data := (token_layer_data g)[ba * cur_max_len + i := batch ! ba ! i],
                       pad_mask_data := (pad_mask_data g)[ba * cur_max_len + i := 1],
                       sum_data := (sum_data g)[ba * cur_max_len + i :=
                                     float_recip (float_cast cur_len)]\<rparr>
                else g\<lparr>token_layer_data := (token_layer_data g)[ba * cur_max_len + i := 101],
                       pad_mask_data := (pad_mask_data g)[ba * cur_max_len + i := 0],
                       sum_data := (sum_data g)[ba * cur_max_len + i := 0]\<rparr>)
      in g1\<lparr>pos_data := (pos_data g1)[ba * cur_max_len + i := int i]\<rparr>)"

definition fill_row :: "bert_batch \<Rightarrow> nat \<Rightarrow> nat \<Rightarrow> graph_inputs \<Rightarrow> graph_inputs" where
  "fill_row batch cur_max_len ba g = fold (fill_cell batch cur_max_len ba) [0 ..< cur_max_len] g"

definition fill_inputs :: "bert_batch \<Rightarrow> nat \<Rightarrow> graph_inputs \<Rightarrow> graph_inputs" where
  "fill_inputs batch cur_max_len g = fold (fill_row batch cur_max_len) [0 ..< length batch] g"

text \<open>
  The buffers come from \<open>malloc\<close>, so their first contents are indeterminate; the
  model starts from zeros, and \<open>fill_inputs_cell\<close> below holds for any first contents.
\<close>

definition fresh_inputs :: "nat \<Rightarrow> graph_inputs" where
  "fresh_inputs n = \<lparr>token_layer_data = replicate n 0, pad_mask_data = replicate n 0,
                      pos_data = replicate n 0, sum_data = replicate n 0\<rparr>"

text \<open>The loop \<open>get the max length of the batch\<close>.\<close>

definition max_len :: "bert_batch \<Rightarrow> int" where
  "max_len batch =
     fold (\<lambda>tokens cur_max_len.
             if int (length tokens) > cur_max_len then int (length tokens) else cur_max_len)
       batch 0"

text \<open>
  What the model keeps of a graph: its shape and, unless the allocator is in measure
  mode, the contents of the input tensors.  The nodes of the graph are calls into the
  tensor library; of these only the three that build the attention mask are modelled
  (\<open>attn_mask\<close> below).
\<close>

record cgraph =
  graph_len :: nat
  graph_batch :: nat
  graph_d_head :: int
  graph_inputs :: "graph_inputs option"

datatype fault = Division_fault | Null_dereference

text \<open>
  \<open>bert_build_graph\<close>: \<open>Inl\<close> is undefined behaviour in the function itself (the
  division \<open>n_embd / n_head\<close> comes before the overflow test), \<open>Inr None\<close> is the
  \<open>nullptr\<close> returned after "Too many tokens".
\<close>

definition bert_build_graph :: "bert_hparams \<Rightarrow> bool \<Rightarrow> bert_batch \<Rightarrow> fault + cgraph option" where
  "bert_build_graph hparams measure_mode batch =
     (let n_batch_size = length batch;
          cur_max_len = max_len batch
      in case d_head hparams of
           None \<Rightarrow> Inl Division_fault
         | Some d \<Rightarrow>
             if cur_max_len > n_max_tokens hparams then Inr None
             else Inr (Some
               \<lparr>graph_len = nat cur_max_len, graph_batch = n_batch_size, graph_d_head = d,
                graph_inputs =
                  (if measure_mode then None
                   else Some (fill_inputs batch (nat cur_max_len)
                                (fresh_inputs (nat cur_max_len * n_batch_size))))\<rparr>))"

text \<open>
  \<open>bert_forward_batch\<close>.  The source passes the result of \<open>bert_build_graph\<close> to the
  allocator and to the backend and then reads \<open>gf->nodes\<close> and \<open>gf->n_nodes\<close>, with
  no test for \<open>nullptr\<close>.  \<open>compute\<close> stands for the tensor library: the embeddings it
  writes to the caller's buffer for a graph.
\<close>

definition bert_forward_batch :: "(cgraph \<Rightarrow> real list) \<Rightarrow> bert_hparams \<Rightarrow> bert_batch \<Rightarrow> fault + real list" where
  "bert_forward_batch compute hparams batch =
     (case bert_build_graph hparams False batch of
        Inl f \<Rightarrow> Inl f
      | Inr None \<Rightarrow> Inl Null_dereference
      | Inr (Some gf) \<Rightarrow> Inr (compute gf))"

text \<open>
  The attention mask, element \<open>(i, j)\<close> of batch row \<open>b\<close>.  \<open>pad_mask\<close> has shape
  \<open>[1, L, 1, B]\<close>, so its element \<open>(k, i, 0, b)\<close> is at \<open>k + i + L * b\<close> with \<open>k = 0\<close>;
  \<open>ggml_mul_mat\<close> sums the products over the first axis, of length 1;
  \<open>ggml_add1\<close> adds the scalar \<open>-1.0f\<close> and \<open>ggml_scale\<close> multiplies by
  \<open>100000.0f\<close>.  All values are integers of magnitude at most \<open>10^5 < 2^24\<close>, exact in
  binary32, so the real arithmetic of the model is that of the machine.
\<close>

definition attn_mask :: "real list \<Rightarrow> nat \<Rightarrow> nat \<Rightarrow> nat \<Rightarrow> nat \<Rightarrow> real" where
  "attn_mask pad_mask L b i j =
     ((\<Sum>k < 1. pad_mask ! (k + i + L * b) * pad_mask ! (k + j + L * b)) + (- 1)) * 100000"

text \<open>
  \<open>bert_encode_batch\<close> tokenizes every text with the cap \<open>N = n_max_tokens\<close> of the
  model and hands the batch to \<open>bert_forward_batch\<close>.
\<close>

definition bert_encode_batch :: "(cgraph \<Rightarrow> real list) \<Rightarrow> bert_hparams \<Rightarrow> bert_vocab \<Rightarrow> string list \<Rightarrow> fault + real list" where
  "bert_encode_batch compute hparams vocab texts =
     bert_forward_batch compute hparams
       (map (\<lambda>text. bert_tokenize vocab text (n_max_tokens hparams)) texts)"

text \<open>Hyperparameters of a model with at most three positions, for concrete evaluations.\<close>

definition example_hparams :: bert_hparams where
  "example_hparams = \<lparr>n_vocab = 30522, n_max_tokens = 3, n_embd = 384,
     n_intermediate = 1536, n_head = 12, n_layer = 6, layer_norm_eps = 0x2B8CBCCC\<rparr>"

section \<open>Facts about the tokenizer\<close>

subsection \<open>The WordPiece scan\<close>

lemma match_loop_None_iff:
  "match_loop token_map word i j = None \<longleftrightarrow>
     (\<forall>k. i < k \<and> k \<le> j \<longrightarrow> token_map (substr word i (k - i)) = None)"
proof (induction token_map word i j rule: match_loop.induct)
  case (1 token_map word i j)
  note unfold = match_loop.simps [of token_map word i j]
  show ?case
  proof (cases "j > i")
    case False
    then have "match_loop token_map word i j = None" by (simp add: unfold)
    moreover have "\<forall>k. \<not> (i < k \<and> k \<le> j)" using False by auto
    ultimately show ?thesis by blast
  next
    case True
    show ?thesis
    proof (cases "token_map (substr word i (j - i))")
      case (Some a)
      with True show ?thesis by (auto simp: unfold)
    next
      case None
      have "(\<forall>k. i < k \<and> k \<le> j \<longrightarrow> token_map (substr word i (k - i)) = None) \<longleftrightarrow>
            (\<forall>k. i < k \<and> k \<le> j - 1 \<longrightarrow> token_map (substr word i (k - i)) = None)"
      proof
        assume "\<forall>k. i < k \<and> k \<le> j \<longrightarrow> token_map (substr word i (k - i)) = None"
        then show "\<forall>k. i < k \<and> k \<le> j - 1 \<longrightarrow> token_map (substr word i (k - i)) = None"
          by auto
      next
        assume a: "\<forall>k. i < k \<and> k \<le> j - 1 \<longrightarrow> token_map (substr word i (k - i)) = None"
        show "\<forall>k. i < k \<and> k \<le> j \<longrightarrow> token_map (substr word i (k - i)) = None"
        proof (intro allI impI)
          fix k assume k: "i < k \<and> k \<le> j"
          show "token_map (substr word i (k - i)) = None"
          proof (cases "k = j")
            case True
            with None show ?thesis by simp
          next
            case False
            with k have "i < k \<and> k \<le> j - 1" by arith
            with a show ?thesis by blast
          qed
        qed
      qed
      with "1.IH" [OF True None] True None show ?thesis
        by (simp add: unfold)
    qed
  qed
qed

lemma wordpiece_step_miss:
  assumes "\<forall>j. i < j \<and> j \<le> length word \<longrightarrow> token_map (substr word i (j - i)) = None"
  shows "wordpiece_step vocab word (i, token_map, tokens, t) =
           (i + 1, subword_token_to_id vocab, tokens, t)"
  using assms match_loop_None_iff [of token_map word i "length word"]
  by (simp add: wordpiece_step_def)

lemma wordpiece_step_emits:
  assumes "wordpiece_step vocab word (i, token_map, tokens, t) = (i', token_map', tokens', t')"
  shows "\<exists>ext. tokens' = tokens @ ext \<and> t' = t + int (length ext)"
  using assms
  by (auto simp: wordpiece_step_def split: option.splits)

lemma wordpiece_loop_emits:
  "wordpiece_loop vocab n_max word st = st' \<Longrightarrow>
     \<exists>ext. fst (snd (snd st')) = fst (snd (snd st)) @ ext \<and>
           snd (snd (snd st')) = snd (snd (snd st)) + int (length ext)"
proof (induction vocab n_max word st arbitrary: st' rule: wordpiece_loop.induct)
  case (1 vocab n_max word st)
  note unfold = wordpiece_loop.simps [of vocab n_max word st]
  show ?case
  proof (cases "scan_continues n_max word st")
    case False
    with "1.prems" have "st' = st" by (simp add: unfold)
    then show ?thesis by simp
  next
    case True
    with "1.prems" have "wordpiece_loop vocab n_max word (wordpiece_step vocab word st) = st'"
      by (simp add: unfold)
    from "1.IH" [OF True this] obtain ext where
      ext: "fst (snd (snd st')) = fst (snd (snd (wordpiece_step vocab word st))) @ ext"
           "snd (snd (snd st')) = snd (snd (snd (wordpiece_step vocab word st))) + int (length ext)"
      by blast
    obtain i tm tokens t where st: "st = (i, tm, tokens, t)" by (cases st) auto
    obtain i1 tm1 tokens1 t1 where s1: "wordpiece_step vocab word st = (i1, tm1, tokens1, t1)"
      by (cases "wordpiece_step vocab word st") auto
    from wordpiece_step_emits [OF s1 [unfolded st]] obtain e1 where
      e1: "tokens1 = tokens @ e1" "t1 = t + int (length e1)" by blast
    from ext s1 e1 st have "fst (snd (snd st')) = fst (snd (snd st)) @ (e1 @ ext) \<and>
           snd (snd (snd st')) = snd (snd (snd st)) + int (length (e1 @ ext))"
      by simp
    then show ?thesis by blast
  qed
qed

lemma wordpiece_fuel_enough:
  "length word - fst st \<le> k \<Longrightarrow>
     wordpiece_fuel k vocab n_max word st = Some (wordpiece_loop vocab n_max word st)"
proof (induction k arbitrary: st)
  case 0
  obtain i tm tokens t where st: "st = (i, tm, tokens, t)" by (cases st) auto
  with 0 have "\<not> scan_continues n_max word st" by (simp add: scan_continues_def)
  then show ?case by (simp add: wordpiece_loop.simps [of vocab n_max word st])
next
  case (Suc k)
  show ?case
  proof (cases "scan_continues n_max word st")
    case False
    then show ?thesis by (simp add: wordpiece_loop.simps [of vocab n_max word st])
  next
    case True
    obtain i tm tokens t where st: "st = (i, tm, tokens, t)" by (cases st) auto
    from True st have i: "i < length word" by (simp add: scan_continues_def)
    from wordpiece_step_cursor(1) [OF i, of vocab tm tokens t] Suc.prems st
    have "length word - fst (wordpiece_step vocab word st) \<le> k" by simp
    from Suc.IH [OF this] True show ?thesis
      by (simp add: wordpiece_loop.simps [of vocab n_max word st])
  qed
qed

lemma tokenize_word_emits:
  assumes "tokenize_word vocab n_max word (tokens, t) = (tokens', t')"
  shows "\<exists>ext. tokens' = tokens @ ext \<and> t' = t + int (length ext)"
proof (cases "length word = 0")
  case True
  with assms show ?thesis by (simp add: tokenize_word_def)
next
  case False
  obtain i1 tm1 tokens1 t1 where
    w: "wordpiece_loop vocab n_max word (0, token_to_id vocab, tokens, t) = (i1, tm1, tokens1, t1)"
    by (cases "wordpiece_loop vocab n_max word (0, token_to_id vocab, tokens, t)") auto
  from wordpiece_loop_emits [OF w] obtain ext where
    ext: "tokens1 = tokens @ ext" "t1 = t + int (length ext)" by auto
  show ?thesis
  proof (cases "ext = []")
    case True
    with ext have "tokens1 = tokens" "t1 = t" by simp_all
    with assms False w have "tokens' = tokens @ [100] \<and> t' = t + int (length [100::int])"
      by (simp add: tokenize_word_def)
    then show ?thesis by blast
  next
    case nonempty: False
    with ext have "t \<noteq> t1" by simp
    with assms False w have "tokens' = tokens1 \<and> t' = t1"
      by (simp add: tokenize_word_def)
    with ext show ?thesis by blast
  qed
qed

lemma fold_tokenize_word_emits:
  "fold (tokenize_word vocab n_max) words (tokens, t) = (tokens', t') \<Longrightarrow>
     \<exists>ext. tokens' = tokens @ ext \<and> t' = t + int (length ext)"
proof (induction words arbitrary: tokens t)
  case Nil
  then show ?case by simp
next
  case (Cons w words)
  obtain tokens1 t1 where s1: "tokenize_word vocab n_max w (tokens, t) = (tokens1, t1)"
    by (cases "tokenize_word vocab n_max w (tokens, t)") auto
  from tokenize_word_emits [OF s1] obtain e1 where
    e1: "tokens1 = tokens @ e1" "t1 = t + int (length e1)" by blast
  from Cons.prems s1 have "fold (tokenize_word vocab n_max) words (tokens1, t1) = (tokens', t')"
    by simp
  from Cons.IH [OF this] obtain e2 where
    e2: "tokens' = tokens1 @ e2" "t' = t1 + int (length e2)" by blast
  from e1 e2 have "tokens' = tokens @ (e1 @ e2) \<and> t' = t + int (length (e1 @ e2))"
    by simp
  then show ?case by blast
qed

lemma bert_tokenize_frame:
  "\<exists>mid. bert_tokenize vocab text n_max = [101] @ mid @ [102]"
proof -
  let ?words = "split_words (presplit (bert_normalize_prompt text))"
  obtain tokens t where f: "fold (tokenize_word vocab n_max) ?words ([101], 1) = (tokens, t)"
    by (cases "fold (tokenize_word vocab n_max) ?words ([101], 1)") auto
  from fold_tokenize_word_emits [OF f] obtain ext where "tokens = [101] @ ext" by blast
  with f have "bert_tokenize vocab text n_max = [101] @ ext @ [102]"
    by (simp add: bert_tokenize_def Let_def)
  then show ?thesis by blast
qed

lemma wordpiece_loop_miss:
  assumes "i < length word" and "\<not> t \<ge> n_max - 1"
    and "\<forall>j. i < j \<and> j \<le> length word \<longrightarrow> token_map (substr word i (j - i)) = None"
  shows "wordpiece_loop vocab n_max word (i, token_map, tokens, t) =
         wordpiece_loop vocab n_max word (i + 1, subword_token_to_id vocab, tokens, t)"
  using assms wordpiece_step_miss [OF assms(3), of vocab tokens t]
  by (simp add: wordpiece_loop.simps [of vocab n_max word "(i, token_map, tokens, t)"]
        scan_continues_def)

lemma tokenize_word_unk:
  assumes "word \<noteq> []"
    and "wordpiece_loop vocab n_max word (0, token_to_id vocab, tokens, t) = (i', token_map', tokens', t')"
  shows "tokenize_word vocab n_max word (tokens, t) =
           (if tokens' = tokens then (tokens @ [100], t + 1) else (tokens', t'))"
proof -
  from wordpiece_loop_emits [OF assms(2)] obtain ext where
    ext: "tokens' = tokens @ ext" "t' = t + int (length ext)" by auto
  show ?thesis
  proof (cases "ext = []")
    case True
    with ext have "tokens' = tokens" "t' = t" by simp_all
    with assms show ?thesis by (simp add: tokenize_word_def)
  next
    case False
    with ext have "t \<noteq> t'" "tokens' \<noteq> tokens" by simp_all
    with assms show ?thesis by (simp add: tokenize_word_def)
  qed
qed

subsection \<open>The exception of \<open>substr\<close>\<close>

text \<open>
  \<open>std::string::substr(pos, n)\<close> throws \<open>std::out_of_range\<close> when \<open>pos > size()\<close>;
  it is the only operation of \<open>bert_tokenize\<close> that can throw.  \<open>substr_at\<close> keeps
  the exception (\<open>None\<close>), and the functions named \<open>_chk\<close> are the loops of the
  tokenizer again, with every \<open>substr\<close> of the source as a \<open>substr_at\<close> (the one in the
  call of \<open>fprintf\<close> included) and the exception passed on.  Each returns \<open>Some\<close> of
  what its counterpart above returns: no call throws.
\<close>

definition substr_at :: "string \<Rightarrow> nat \<Rightarrow> nat \<Rightarrow> string option" where
  "substr_at s pos n = (if pos > length s then None else Some (take n (drop pos s)))"

function strip_accents_chk :: "string \<Rightarrow> nat \<Rightarrow> string \<Rightarrow> string option" where
  "strip_accents_chk inputString i resultString =
     (if i < length inputString then
        (case substr_at inputString i (utf8_len (inputString ! i)) of
           None \<Rightarrow> None
         | Some curChar \<Rightarrow>
             strip_accents_chk inputString (i + utf8_len (inputString ! i))
               (case accentMap curChar of
                  Some a \<Rightarrow> resultString @ [a]
                | None \<Rightarrow> resultString @ curChar))
      else Some resultString)"
  by pat_completeness auto
termination
  by (relation "measure (\<lambda>(s, i, r). length s - i)") (auto simp: cursor_advance)

declare strip_accents_chk.simps [simp del]

function presplit_chk :: "string \<Rightarrow> nat \<Rightarrow> string \<Rightarrow> string option" where
  "presplit_chk ori_str i new_str =
     (if i < length ori_str then
        (if utf8_len (ori_str ! i) = 1 \<and> ispunct (ori_str ! i) then
           presplit_chk ori_str (i + 1) (new_str @ '' '' @ [ori_str ! i] @ '' '')
         else if utf8_len (ori_str ! i) = 3 then
           (case substr_at ori_str i 3 of
              None \<Rightarrow> None
            | Some cp \<Rightarrow>
                if is_chinese_char cp
                then presplit_chk ori_str (i + 3) (new_str @ '' '' @ cp @ '' '')
                else presplit_chk ori_str (i + 1) (new_str @ [ori_str ! i]))
         else presplit_chk ori_str (i + 1) (new_str @ [ori_str ! i]))
      else Some new_str)"
  by pat_completeness auto
termination
  by (relation "measure (\<lambda>(s, i, r). length s - i)") auto

declare presplit_chk.simps [simp del]

function split_chk :: "string \<Rightarrow> nat \<Rightarrow> nat \<Rightarrow> string list \<Rightarrow> string list option" where
  "split_chk new_str l r words =
     (if r < length new_str then
        (if isspace (new_str ! r) then
           (if r > l then
              (case substr_at new_str l (r - l) of
                 None \<Rightarrow> None
               | Some w \<Rightarrow> split_chk new_str (r + 1) (r + 1) (words @ [w]))
            else split_chk new_str (r + 1) (r + 1) words)
         else split_chk new_str l (r + 1) words)
      else (if r > l then
              (case substr_at new_str l (r - l) of
                 None \<Rightarrow> None
               | Some w \<Rightarrow> Some (words @ [w]))
            else Some words))"
  by pat_completeness auto
termination
  by (relation "measure (\<lambda>(s, l, r, w). length s - r)") auto

declare split_chk.simps [simp del]

function match_chk :: "(string \<rightharpoonup> bert_token) \<Rightarrow> string \<Rightarrow> nat \<Rightarrow> nat \<Rightarrow> (nat \<times> bert_token) option option" where
  "match_chk token_map word i j =
     (if j > i then
        (case substr_at word i (j - i) of
           None \<Rightarrow> None
         | Some piece \<Rightarrow>
             (case token_map piece of
                Some tok \<Rightarrow> Some (Some (j, tok))
              | None \<Rightarrow> match_chk token_map word i (j - 1)))
      else Some None)"
  by pat_completeness auto
termination
  by (relation "measure (\<lambda>(m, w, i, j). j - i)") auto

declare match_chk.simps [simp del]

definition wordpiece_step_chk :: "bert_vocab \<Rightarrow> string \<Rightarrow> scan_state \<Rightarrow> scan_state option" where
  "wordpiece_step_chk vocab word st =
     (case st of (i, token_map, tokens, t) \<Rightarrow>
        (case match_chk token_map word i (length word) of
           None \<Rightarrow> None
         | Some (Some (j, tok)) \<Rightarrow> Some (j, subword_token_to_id vocab, tokens @ [tok], t + 1)
         | Some None \<Rightarrow>
             (case substr_at word i 1 of
                None \<Rightarrow> None
              | Some c \<Rightarrow> Some (i + 1, subword_token_to_id vocab, tokens, t))))"

lemma substr_at_Some: "pos \<le> length s \<Longrightarrow> substr_at s pos n = Some (substr s pos n)"
  by (simp add: substr_at_def substr_def)

lemma strip_accents_chk_ok:
  "strip_accents_chk s i r = Some (strip_accents_loop s i r)"
proof (induction s i r rule: strip_accents_loop.induct)
  case (1 s i r)
  show ?case
  proof (cases "i < length s")
    case True
    then have sub: "substr_at s i (utf8_len (s ! i)) = Some (substr s i (utf8_len (s ! i)))"
      by (simp add: substr_at_Some)
    from "1.IH" [OF True refl refl] True sub show ?thesis
      by (simp add: strip_accents_chk.simps [of s i r] strip_accents_loop.simps [of s i r] Let_def)
  next
    case False
    then show ?thesis
      by (simp add: strip_accents_chk.simps [of s i r] strip_accents_loop.simps [of s i r])
  qed
qed

lemma presplit_chk_ok:
  "presplit_chk s i r = Some (presplit_loop s i r)"
proof (induction s i r rule: presplit_loop.induct)
  case (1 s i r)
  note u1 = presplit_chk.simps [of s i r] and u2 = presplit_loop.simps [of s i r]
  show ?case
  proof (cases "i < length s")
    case False
    then show ?thesis by (simp add: u1 u2)
  next
    case True
    then have sub: "substr_at s i 3 = Some (substr s i 3)"
      by (simp add: substr_at_Some)
    show ?thesis
    proof (cases "utf8_len (s ! i) = 1 \<and> ispunct (s ! i)")
      case A: True
      from "1.IH"(1) [OF True refl A] True A show ?thesis by (simp add: u1 u2)
    next
      case notA: False
      show ?thesis
      proof (cases "utf8_len (s ! i) = 3 \<and> is_chinese_char (substr s i 3)")
        case B: True
        from "1.IH"(2) [OF True refl notA B] True notA B sub show ?thesis
          by (auto simp add: u1 u2)
      next
        case notB: False
        from "1.IH"(3) [OF True refl notA notB] True notA notB sub show ?thesis
          by (auto simp add: u1 u2)
      qed
    qed
  qed
qed

lemma split_chk_ok:
  "l \<le> r \<Longrightarrow> r \<le> length s \<Longrightarrow> split_chk s l r words = Some (split_loop s l r words)"
proof (induction s l r words rule: split_loop.induct)
  case (1 s l r words)
  note u1 = split_chk.simps [of s l r words] and u2 = split_loop.simps [of s l r words]
  from "1.prems" have sub: "substr_at s l (r - l) = Some (substr s l (r - l))"
    by (simp add: substr_at_Some)
  show ?case
  proof (cases "r < length s")
    case False
    with sub show ?thesis by (simp add: u1 u2)
  next
    case True
    show ?thesis
    proof (cases "isspace (s ! r)")
      case sp: True
      from True have "r + 1 \<le> r + 1" "r + 1 \<le> length s" by simp_all
      from "1.IH"(1) [OF True sp this] True sp sub show ?thesis
        by (cases "l < r") (simp_all add: u1 u2)
    next
      case nsp: False
      from "1.prems" True have "l \<le> r + 1" "r + 1 \<le> length s" by simp_all
      from "1.IH"(2) [OF True nsp this] True nsp show ?thesis
        by (simp add: u1 u2)
    qed
  qed
qed

lemma match_chk_ok:
  "i \<le> length word \<Longrightarrow> match_chk token_map word i j = Some (match_loop token_map word i j)"
proof (induction token_map word i j rule: match_loop.induct)
  case (1 token_map word i j)
  note u1 = match_chk.simps [of token_map word i j] and u2 = match_loop.simps [of token_map word i j]
  from "1.prems" have sub: "substr_at word i (j - i) = Some (substr word i (j - i))"
    by (simp add: substr_at_Some)
  show ?case
  proof (cases "j > i")
    case False
    then show ?thesis by (simp add: u1 u2)
  next
    case True
    show ?thesis
    proof (cases "token_map (substr word i (j - i))")
      case None
      from "1.IH" [OF True None "1.prems"] True None sub show ?thesis
        by (simp add: u1 u2)
    next
      case (Some tok)
      with True sub show ?thesis by (simp add: u1 u2)
    qed
  qed
qed

lemma wordpiece_step_chk_ok:
  assumes "scan_continues n_max word st"
  shows "wordpiece_step_chk vocab word st = Some (wordpiece_step vocab word st)"
proof -
  obtain i tm tokens t where st: "st = (i, tm, tokens, t)" by (cases st) auto
  with assms have i: "i < length word" by (simp add: scan_continues_def)
  then have "match_chk tm word i (length word) = Some (match_loop tm word i (length word))"
    by (simp add: match_chk_ok)
  moreover from i have "substr_at word i 1 = Some (substr word i 1)"
    by (simp add: substr_at_Some)
  ultimately show ?thesis
    by (simp add: st wordpiece_step_chk_def wordpiece_step_def split: option.splits)
qed

function wordpiece_loop_chk :: "bert_vocab \<Rightarrow> int \<Rightarrow> string \<Rightarrow> scan_state \<Rightarrow> scan_state option" where
  "wordpiece_loop_chk vocab n_max word st =
     (if scan_continues n_max word st
      then (case wordpiece_step_chk vocab word st of
              None \<Rightarrow> None
            | Some st' \<Rightarrow> wordpiece_loop_chk vocab n_max word st')
      else Some st)"
  by pat_completeness auto
termination
proof (relation "measure (\<lambda>(vocab, n_max, word, st). length word - fst st)")
  show "wf (measure (\<lambda>(vocab, n_max, word, st). length word - fst st))"
    by simp
next
  fix vocab :: bert_vocab and n_max :: int and word :: string and st st' :: scan_state
  assume go: "scan_continues n_max word st"
    and step: "wordpiece_step_chk vocab word st = Some st'"
  from wordpiece_step_chk_ok [OF go, of vocab] step
  have st': "st' = wordpiece_step vocab word st" by simp
  obtain i token_map tokens t where st: "st = (i, token_map, tokens, t)"
    by (cases st) auto
  from go st have "i < length word"
    by (simp add: scan_continues_def)
  from wordpiece_step_cursor [OF this, of vocab token_map tokens t] st st'
  show "((vocab, n_max, word, st'), (vocab, n_max, word, st))
          \<in> measure (\<lambda>(vocab, n_max, word, st). length word - fst st)"
    by simp
qed

declare wordpiece_loop_chk.simps [simp del]

lemma wordpiece_loop_chk_ok:
  "wordpiece_loop_chk vocab n_max word st = Some (wordpiece_loop vocab n_max word st)"
proof (induction vocab n_max word st rule: wordpiece_loop.induct)
  case (1 vocab n_max word st)
  note u1 = wordpiece_loop_chk.simps [of vocab n_max word st]
    and u2 = wordpiece_loop.simps [of vocab n_max word st]
  show ?case
  proof (cases "scan_continues n_max word st")
    case True
    from "1.IH" [OF True] True wordpiece_step_chk_ok [OF True, of vocab] show ?thesis
      by (simp add: u1 u2)
  next
    case False
    then show ?thesis by (simp add: u1 u2)
  qed
qed

definition tokenize_word_chk :: "bert_vocab \<Rightarrow> int \<Rightarrow> string \<Rightarrow> bert_tokens \<times> int \<Rightarrow> (bert_tokens \<times> int) option" where
  "tokenize_word_chk vocab n_max word st =
     (case st of (tokens, t) \<Rightarrow>
        if length word = 0 then Some (tokens, t)
        else (case wordpiece_loop_chk vocab n_max word (0, token_to_id vocab, tokens, t) of
                None \<Rightarrow> None
              | Some (i, token_map, tokens', t') \<Rightarrow>
                  Some (if t = t' then (tokens' @ [100], t' + 1) else (tokens', t'))))"

lemma tokenize_word_chk_ok:
  "tokenize_word_chk vocab n_max word st = Some (tokenize_word vocab n_max word st)"
  by (cases st)
     (simp add: tokenize_word_chk_def tokenize_word_def wordpiece_loop_chk_ok Let_def
        split: prod.splits)

definition bert_tokenize_chk :: "bert_vocab \<Rightarrow> string \<Rightarrow> int \<Rightarrow> bert_tokens option" where
  "bert_tokenize_chk vocab text n_max =
     (case strip_accents_chk text 0 [] of
        None \<Rightarrow> None
      | Some text2 \<Rightarrow>
          (case presplit_chk (lower_loop text2 0) 0 [] of
             None \<Rightarrow> None
           | Some new_str \<Rightarrow>
               (case split_chk new_str 0 0 [] of
                  None \<Rightarrow> None
                | Some words \<Rightarrow>
                    (case fold (\<lambda>word st. Option.bind st (tokenize_word_chk vocab n_max word))
                            words (Some ([101], 1)) of
                       None \<Rightarrow> None
                     | Some (tokens, t) \<Rightarrow> Some (tokens @ [102])))))"

lemma fold_tokenize_word_chk_ok:
  "fold (\<lambda>word st. Option.bind st (tokenize_word_chk vocab n_max word)) words (Some st) =
     Some (fold (tokenize_word vocab n_max) words st)"
  by (induction words arbitrary: st) (simp_all add: tokenize_word_chk_ok)

lemma bert_tokenize_chk_ok:
  "bert_tokenize_chk vocab text n_max = Some (bert_tokenize vocab text n_max)"
  by (simp add: bert_tokenize_chk_def bert_tokenize_def strip_accents_chk_ok presplit_chk_ok
        split_chk_ok fold_tokenize_word_chk_ok bert_normalize_prompt_def strip_accents_def
        presplit_def split_words_def Let_def split: prod.splits)

text \<open>A punctuation mark, a word with a skipped byte, an empty text, an unknown word.\<close>

lemma tokenize_examples:
  "bert_tokenize example_vocab ''hello, unbelievable xb!'' 16 = [101, 11, 100, 10, 20, 21, 100, 102]"
  "bert_tokenize example_vocab '''' 16 = [101, 102]"
  "bert_tokenize example_vocab ''zzz'' 16 = [101, 100, 102]"
  by code_simp+

subsection \<open>The token cap\<close>

text \<open>
  C1 (the length of the result is at most \<open>n_max\<close>).  The cap test \<open>t >= n_max - 1\<close>
  only guards the scan of a word.  The unknown-token push after the scan is not
  guarded: every word that reaches the scan with the cap already hit emits no token and
  is therefore given an UNK.  With \<open>n_max = 4\<close> and five one-letter words the result
  has seven ids.  By \<open>bert_tokenize_frame\<close> the first id is still 101 and the last 102.
\<close>

theorem bert_tokenize_exceeds_cap:
  "bert_tokenize example_vocab ''a b a b a'' 4 = [101, 7, 8, 100, 100, 100, 102] \<and>
   \<not> int (length (bert_tokenize example_vocab ''a b a b a'' 4)) \<le> 4"
proof -
  have "bert_tokenize example_vocab ''a b a b a'' 4 = [101, 7, 8, 100, 100, 100, 102]"
    by code_simp
  then show ?thesis by simp
qed

subsection \<open>Misses and unknown words\<close>

text \<open>
  C2.  When no \<open>word[i..j)\<close> with \<open>i < j \<le> n\<close> is in the active map, one iteration
  of the scan emits nothing, moves the cursor from \<open>i\<close> to \<open>i + 1\<close> and makes the
  subword map the active one, and the scan goes on from that state.  For a non-empty
  word whose scan has emitted no token, exactly the id 100 is appended and the counter
  grows by one; when the scan has emitted a token, nothing is appended.  No input makes
  the tokenizer signal an error: \<open>bert_tokenize\<close> has no \<open>throw\<close> and no error
  return of its own, and with the exception of \<open>substr\<close> written out it returns the
  id list for every vocabulary, text and cap.
\<close>

theorem wordpiece_miss_and_unk:
  "(i < length word \<and> \<not> t \<ge> n_max - 1 \<and>
      (\<forall>j. i < j \<and> j \<le> length word \<longrightarrow> token_map (substr word i (j - i)) = None) \<longrightarrow>
      wordpiece_step vocab word (i, token_map, tokens, t) =
        (i + 1, subword_token_to_id vocab, tokens, t) \<and>
      wordpiece_loop vocab n_max word (i, token_map, tokens, t) =
        wordpiece_loop vocab n_max word (i + 1, subword_token_to_id vocab, tokens, t)) \<and>
   (word \<noteq> [] \<and>
      wordpiece_loop vocab n_max word (0, token_to_id vocab, tokens, t) = (i', token_map', tokens', t') \<longrightarrow>
      tokenize_word vocab n_max word (tokens, t) =
        (if tokens' = tokens then (tokens @ [100], t + 1) else (tokens', t'))) \<and>
   bert_tokenize_chk vocab text n_max = Some (bert_tokenize vocab text n_max)"
proof (intro conjI impI)
  show "bert_tokenize_chk vocab text n_max = Some (bert_tokenize vocab text n_max)"
    by (rule bert_tokenize_chk_ok)
next
  assume a: "i < length word \<and> \<not> t \<ge> n_max - 1 \<and>
      (\<forall>j. i < j \<and> j \<le> length word \<longrightarrow> token_map (substr word i (j - i)) = None)"
  then show "wordpiece_step vocab word (i, token_map, tokens, t) =
        (i + 1, subword_token_to_id vocab, tokens, t)"
    by (intro wordpiece_step_miss) blast
  from a show "wordpiece_loop vocab n_max word (i, token_map, tokens, t) =
        wordpiece_loop vocab n_max word (i + 1, subword_token_to_id vocab, tokens, t)"
    by (intro wordpiece_loop_miss) blast+
next
  assume "word \<noteq> [] \<and>
      wordpiece_loop vocab n_max word (0, token_to_id vocab, tokens, t) = (i', token_map', tokens', t')"
  then show "tokenize_word vocab n_max word (tokens, t) =
        (if tokens' = tokens then (tokens @ [100], t + 1) else (tokens', t'))"
    using tokenize_word_unk by blast
qed


theorem wordpiece_miss_and_unk_witness:
  "wordpiece_step example_vocab ''xb'' (0, token_to_id example_vocab, [101], 1) =
     (1, subword_token_to_id example_vocab, [101], 1) \<and>
   wordpiece_loop example_vocab 16 ''xb'' (0, token_to_id example_vocab, [101], 1) =
     wordpiece_loop example_vocab 16 ''xb'' (1, subword_token_to_id example_vocab, [101], 1) \<and>
   tokenize_word example_vocab 16 ''zz'' ([101], 1) = ([101, 100], 2)"
proof -
  have "match_loop (token_to_id example_vocab) ''xb'' 0 (length ''xb'') = None"
    by code_simp
  then have miss: "\<forall>j. 0 < j \<and> j \<le> length ''xb'' \<longrightarrow>
      token_to_id example_vocab (substr ''xb'' 0 (j - 0)) = None"
    by (simp only: match_loop_None_iff)
  have h1: "(0::nat) < length ''xb'' \<and> \<not> (1::int) \<ge> 16 - 1 \<and>
      (\<forall>j. 0 < j \<and> j \<le> length ''xb'' \<longrightarrow>
         token_to_id example_vocab (substr ''xb'' 0 (j - 0)) = None)"
    using miss by simp
  have h2: "''zz'' \<noteq> [] \<and>
      wordpiece_loop example_vocab 16 ''zz'' (0, token_to_id example_vocab, [101], 1) =
        (2, subword_token_to_id example_vocab, [101], 1)"
    by (simp add: wordpiece_loop.simps scan_continues_def wordpiece_step_def
          match_loop.simps substr_def example_vocab_def)
  from wordpiece_miss_and_unk [where i = 0 and word = "''xb''" and t = 1 and n_max = 16
      and token_map = "token_to_id example_vocab" and vocab = example_vocab
      and tokens = "[101]", THEN conjunct1, rule_format, OF h1]
    wordpiece_miss_and_unk [where word = "''zz''" and t = 1 and n_max = 16
      and vocab = example_vocab and tokens = "[101]" and i' = 2
      and token_map' = "subword_token_to_id example_vocab" and tokens' = "[101]"
      and t' = 1, THEN conjunct2, THEN conjunct1, rule_format, OF h2]
  show ?thesis by simp
qed

subsection \<open>Termination of the scan\<close>

text \<open>
  C10.  An iteration of the scan that passes the loop test (cursor inside the word, cap
  not reached) moves the cursor strictly forward and not beyond the end of the word; an
  iteration that does not pass the test ends the loop.  So a number of iterations equal
  to the bytes left in the word is enough: the bounded loop with that bound returns the
  result of \<open>wordpiece_loop\<close> and never runs out.  All other loops of the tokenizer are
  recursive functions with a decreasing measure.
\<close>

theorem wordpiece_scan_terminates:
  "wordpiece_fuel (length word - i) vocab n_max word (i, token_map, tokens, t) =
     Some (wordpiece_loop vocab n_max word (i, token_map, tokens, t)) \<and>
   (scan_continues n_max word (i, token_map, tokens, t) \<longrightarrow>
      i < fst (wordpiece_step vocab word (i, token_map, tokens, t)) \<and>
      fst (wordpiece_step vocab word (i, token_map, tokens, t)) \<le> length word)"
proof (intro conjI impI)
  show "wordpiece_fuel (length word - i) vocab n_max word (i, token_map, tokens, t) =
     Some (wordpiece_loop vocab n_max word (i, token_map, tokens, t))"
    by (rule wordpiece_fuel_enough) simp
next
  assume "scan_continues n_max word (i, token_map, tokens, t)"
  then have i: "i < length word" by (simp add: scan_continues_def)
  from wordpiece_step_cursor [OF i]
  show "i < fst (wordpiece_step vocab word (i, token_map, tokens, t))"
    and "fst (wordpiece_step vocab word (i, token_map, tokens, t)) \<le> length word"
    by blast+
qed

theorem wordpiece_scan_terminates_witness:
  "wordpiece_fuel (length ''xb'' - 0) example_vocab 16 ''xb''
       (0, token_to_id example_vocab, [101], 1) =
     Some (wordpiece_loop example_vocab 16 ''xb'' (0, token_to_id example_vocab, [101], 1)) \<and>
   scan_continues 16 ''xb'' (0, token_to_id example_vocab, [101], 1) \<and>
   0 < fst (wordpiece_step example_vocab ''xb'' (0, token_to_id example_vocab, [101], 1)) \<and>
   fst (wordpiece_step example_vocab ''xb'' (0, token_to_id example_vocab, [101], 1))
     \<le> length ''xb''"
proof -
  have go: "scan_continues 16 ''xb'' (0, token_to_id example_vocab, [101], 1)"
    by (simp add: scan_continues_def)
  from wordpiece_scan_terminates [where word = "''xb''" and i = 0 and vocab = example_vocab
      and n_max = 16 and token_map = "token_to_id example_vocab" and tokens = "[101]"
      and t = 1] go
  show ?thesis by blast
qed

section \<open>The normalizer is idempotent\<close>

text \<open>
  Both loops of the normalizer move a cursor over the string in steps of \<open>utf8_len\<close>
  of the byte under the cursor.  \<open>chunks\<close> is the list of pieces these cursors visit
  (the last piece is shorter when the string ends inside it); \<open>strip1\<close> and \<open>lower1\<close>
  are what the two loop bodies do to one piece.
\<close>

function chunks :: "string \<Rightarrow> string list" where
  "chunks s = (if s = [] then [] else take (utf8_len (hd s)) s # chunks (drop (utf8_len (hd s)) s))"
  by pat_completeness auto
termination
  by (relation "measure length") (auto simp: utf8_len_pos)

declare chunks.simps [simp del]

lemma chunks_Nil [simp]: "chunks [] = []"
  by (simp add: chunks.simps)

lemma chunks_Cons:
  "chunks (c # cs) = take (utf8_len c) (c # cs) # chunks (drop (utf8_len c) (c # cs))"
  by (simp add: chunks.simps [of "c # cs"])

definition strip1 :: "string \<Rightarrow> string" where
  "strip1 curChar = (case accentMap curChar of Some a \<Rightarrow> [a] | None \<Rightarrow> curChar)"

definition lower :: "char \<Rightarrow> char" where
  "lower c = (if (of_char CHR ''A'' :: nat) \<le> of_char c \<and> (of_char c :: nat) \<le> of_char CHR ''Z''
              then char_of ((of_char c :: nat) - of_char CHR ''A'' + of_char CHR ''a'') else c)"

fun lower1 :: "string \<Rightarrow> string" where
  "lower1 [] = []"
| "lower1 (c # cs) = lower c # cs"

lemma strip_accents_loop_chunks:
  "strip_accents_loop s i r = r @ concat (map strip1 (chunks (drop i s)))"
proof (induction s i r rule: strip_accents_loop.induct)
  case (1 s i r)
  note unfold = strip_accents_loop.simps [of s i r]
  show ?case
  proof (cases "i < length s")
    case False
    then show ?thesis by (simp add: unfold)
  next
    case True
    then have d: "drop i s = s ! i # drop (Suc i) s"
      by (simp add: Cons_nth_drop_Suc)
    let ?len = "utf8_len (s ! i)"
    let ?cur = "substr s i ?len"
    have c: "chunks (drop i s) = ?cur # chunks (drop (i + ?len) s)"
      unfolding d chunks_Cons
      by (simp add: substr_def d [symmetric] add.commute)
    from "1.IH" [OF True refl refl]
    have "strip_accents_loop s (i + ?len)
            (case accentMap ?cur of None \<Rightarrow> r @ ?cur | Some a \<Rightarrow> r @ [a]) =
          (case accentMap ?cur of None \<Rightarrow> r @ ?cur | Some a \<Rightarrow> r @ [a]) @
            concat (map strip1 (chunks (drop (i + ?len) s)))" .
    moreover have "(case accentMap ?cur of None \<Rightarrow> r @ ?cur | Some a \<Rightarrow> r @ [a]) = r @ strip1 ?cur"
      by (simp add: strip1_def split: option.splits)
    ultimately show ?thesis
      using True c by (simp add: unfold Let_def)
  qed
qed

lemma strip_accents_chunks: "strip_accents s = concat (map strip1 (chunks s))"
  by (simp add: strip_accents_def strip_accents_loop_chunks)

lemma of_char_lt_256: "(of_char c :: nat) < 256"
  using of_char_mod_256 [of c, where ?'a = nat]
  by (metis mod_less_divisor zero_less_numeral)

lemma of_char_lower:
  "(of_char (lower c) :: nat) = (if 65 \<le> (of_char c :: nat) \<and> (of_char c :: nat) \<le> 90 then of_char c + 32 else of_char c)"
  by (auto simp: lower_def)

lemma utf8_len_lower [simp]: "utf8_len (lower c) = utf8_len c"
  by (simp add: utf8_len_eq of_char_lower)

lemma lower_lower [simp]: "lower (lower c) = lower c"
proof -
  have "\<not> (65 \<le> (of_char (lower c) :: nat) \<and> (of_char (lower c) :: nat) \<le> 90)"
    by (simp add: of_char_lower)
  then have "\<not> ((of_char CHR ''A'' :: nat) \<le> of_char (lower c) \<and>
              (of_char (lower c) :: nat) \<le> of_char CHR ''Z'')"
    by simp
  then show ?thesis unfolding lower_def [of "lower c"] by (simp only: if_False)
qed

lemma lower_loop_chunks:
  "lower_loop s i = take i s @ concat (map lower1 (chunks (drop i s)))"
proof (induction s i rule: lower_loop.induct)
  case (1 s i)
  note unfold = lower_loop.simps [of s i]
  show ?case
  proof (cases "i < length s")
    case False
    then show ?thesis by (simp add: unfold)
  next
    case True
    let ?s' = "s[i := lower (s ! i)]"
    let ?len = "utf8_len (s ! i)"
    have s': "(if (of_char CHR ''A'' :: nat) \<le> of_char (s ! i) \<and> (of_char (s ! i) :: nat) \<le> of_char CHR ''Z''
               then s[i := char_of ((of_char (s ! i) :: nat) - of_char CHR ''A'' + of_char CHR ''a'')]
               else s) = ?s'"
      by (simp add: lower_def)
    from True have nth: "?s' ! i = lower (s ! i)" by simp
    have step: "lower_loop s i = lower_loop ?s' (i + ?len)"
      using True nth by (simp add: unfold Let_def s' del: of_char_Char)
    from "1.IH" [OF True refl s' [symmetric]] nth
    have ih: "lower_loop ?s' (i + ?len) =
             take (i + ?len) ?s' @ concat (map lower1 (chunks (drop (i + ?len) ?s')))"
      by (simp del: of_char_Char)
    have pos: "0 < ?len" by (rule utf8_len_pos)
    from True have d: "drop i s = s ! i # drop (Suc i) s"
      by (simp add: Cons_nth_drop_Suc)
    have dr: "drop (i + ?len) ?s' = drop (i + ?len) s"
      using pos by (simp add: drop_update_cancel)
    have hd: "take ?len (drop i s) = s ! i # take (?len - 1) (drop (Suc i) s)"
    proof -
      have "take ?len (s ! i # drop (Suc i) s) = s ! i # take (?len - 1) (drop (Suc i) s)"
        using pos by (cases ?len) simp_all
      then show ?thesis by (simp only: d [symmetric])
    qed
    have tk: "take (i + ?len) ?s' = take i s @ lower (s ! i) # take (?len - 1) (drop (Suc i) s)"
    proof -
      have "take (i + ?len) ?s' = (take (i + ?len) s)[i := lower (s ! i)]"
        using pos by (simp add: take_update_swap)
      also have "take (i + ?len) s = take i s @ take ?len (drop i s)"
        by (simp add: take_add)
      also note hd
      also have "(take i s @ s ! i # take (?len - 1) (drop (Suc i) s))[i := lower (s ! i)] =
                 take i s @ lower (s ! i) # take (?len - 1) (drop (Suc i) s)"
        using True by (simp add: list_update_append)
      finally show ?thesis .
    qed
    have c: "chunks (drop i s) = (s ! i # take (?len - 1) (drop (Suc i) s)) # chunks (drop (i + ?len) s)"
    proof -
      have "chunks (s ! i # drop (Suc i) s) =
              take ?len (s ! i # drop (Suc i) s) # chunks (drop ?len (s ! i # drop (Suc i) s))"
        by (rule chunks_Cons)
      then have "chunks (drop i s) = take ?len (drop i s) # chunks (drop ?len (drop i s))"
        by (simp only: d [symmetric])
      then show ?thesis by (simp add: hd add.commute)
    qed
    show ?thesis
      unfolding step ih dr tk c by simp
  qed
qed


lemma bert_normalize_prompt_chunks:
  "bert_normalize_prompt s = concat (map lower1 (chunks (concat (map strip1 (chunks s)))))"
  by (simp add: bert_normalize_prompt_def lower_loop_chunks strip_accents_chunks)

fun chunked :: "string list \<Rightarrow> bool" where
  "chunked [] = True"
| "chunked [ch] = (ch \<noteq> [] \<and> length ch \<le> utf8_len (hd ch))"
| "chunked (ch # ch' # r) = (ch \<noteq> [] \<and> length ch = utf8_len (hd ch) \<and> chunked (ch' # r))"

lemma chunked_chunks: "chunked (chunks s)"
proof (induction s rule: chunks.induct)
  case (1 s)
  show ?case
  proof (cases s)
    case Nil
    then show ?thesis by simp
  next
    case (Cons c cs)
    let ?rest = "drop (utf8_len c) (c # cs)"
    from Cons "1.IH" have ih: "chunked (chunks ?rest)" by simp
    have pos: "0 < utf8_len c" by (rule utf8_len_pos)
    show ?thesis
    proof (cases ?rest)
      case Nil
      with Cons pos show ?thesis by (simp add: chunks_Cons)
    next
      case rest: (Cons d ds)
      then have "utf8_len c < length (c # cs)"
        by (metis drop_all leI list.distinct(1))
      then have len: "length (take (utf8_len c) (c # cs)) = utf8_len c" by simp
      from rest have "chunks ?rest \<noteq> []" by (simp add: chunks_Cons)
      then obtain e es where e: "chunks ?rest = e # es" by (cases "chunks ?rest") auto
      have "chunks s = take (utf8_len c) (c # cs) # e # es"
        unfolding Cons chunks_Cons [of c cs] e ..
      moreover have "hd (take (utf8_len c) (c # cs)) = c" "take (utf8_len c) (c # cs) \<noteq> []"
        using pos by (cases "utf8_len c"; simp)+
      ultimately show ?thesis using ih len e by simp
    qed
  qed
qed

lemma chunks_concat: "chunked cs \<Longrightarrow> chunks (concat cs) = cs"
proof (induction cs rule: chunked.induct)
  case 1
  then show ?case by simp
next
  case (2 ch)
  then obtain c r where ch: "ch = c # r" by (cases ch) auto
  with 2 show ?case by (simp add: chunks_Cons)
next
  case (3 ch ch' r)
  then obtain c t where ch: "ch = c # t" by (cases ch) auto
  with 3 have len: "Suc (length t) = utf8_len c" by simp
  from 3 have ih: "chunks (concat (ch' # r)) = ch' # r" by simp
  have "chunks (concat (ch # ch' # r)) = chunks (c # (t @ concat (ch' # r)))"
    by (simp add: ch)
  also have "\<dots> = take (utf8_len c) (c # (t @ concat (ch' # r))) #
                   chunks (drop (utf8_len c) (c # (t @ concat (ch' # r))))"
    by (rule chunks_Cons)
  also have "take (utf8_len c) (c # (t @ concat (ch' # r))) = ch"
    by (simp add: len [symmetric] ch)
  also have "drop (utf8_len c) (c # (t @ concat (ch' # r))) = concat (ch' # r)"
    by (simp add: len [symmetric])
  finally show ?case by (simp only: ih)
qed

lemma chunked_map:
  assumes full: "\<And>ch. ch \<noteq> [] \<Longrightarrow> length ch = utf8_len (hd ch) \<Longrightarrow>
                   g ch \<noteq> [] \<and> length (g ch) = utf8_len (hd (g ch))"
    and part: "\<And>ch. ch \<noteq> [] \<Longrightarrow> length ch \<le> utf8_len (hd ch) \<Longrightarrow>
                   g ch \<noteq> [] \<and> length (g ch) \<le> utf8_len (hd (g ch))"
  shows "chunked cs \<Longrightarrow> chunked (map g cs)"
proof (induction cs rule: chunked.induct)
  case 1
  then show ?case by simp
next
  case (2 ch)
  with part [of ch] show ?case by simp
next
  case (3 ch ch' r)
  with full [of ch] show ?case by simp
qed

lemma accent_table_props:
  "\<forall>(k, a) \<in> set accent_table. length k = 2 \<and> (of_char (hd k) :: nat) = 195 \<and> (of_char a :: nat) < 128"
  by (simp add: accent_table_def)

lemma accentMap_SomeD:
  assumes "accentMap k = Some a"
  shows "length k = 2" and "(of_char (hd k) :: nat) = 195" and "(of_char a :: nat) < 128"
proof -
  from assms have "(k, a) \<in> set accent_table"
    by (simp add: accentMap_def map_of_SomeD)
  with accent_table_props show "length k = 2" and "(of_char (hd k) :: nat) = 195"
    and "(of_char a :: nat) < 128" by auto
qed

lemma strip1_full:
  assumes "ch \<noteq> []" and "length ch = utf8_len (hd ch)"
  shows "strip1 ch \<noteq> [] \<and> length (strip1 ch) = utf8_len (hd (strip1 ch))"
proof (cases "accentMap ch")
  case None
  with assms show ?thesis by (simp add: strip1_def)
next
  case (Some a)
  from accentMap_SomeD(3) [OF Some] have "utf8_len a = 1" by (simp add: utf8_len_eq)
  with Some show ?thesis by (simp add: strip1_def)
qed

lemma strip1_part:
  assumes "ch \<noteq> []" and "length ch \<le> utf8_len (hd ch)"
  shows "strip1 ch \<noteq> [] \<and> length (strip1 ch) \<le> utf8_len (hd (strip1 ch))"
proof (cases "accentMap ch")
  case None
  with assms show ?thesis by (simp add: strip1_def)
next
  case (Some a)
  from accentMap_SomeD(3) [OF Some] have "utf8_len a = 1" by (simp add: utf8_len_eq)
  with Some show ?thesis by (simp add: strip1_def)
qed

lemma lower1_full:
  assumes "ch \<noteq> []" and "length ch = utf8_len (hd ch)"
  shows "lower1 ch \<noteq> [] \<and> length (lower1 ch) = utf8_len (hd (lower1 ch))"
  using assms by (cases ch) simp_all

lemma lower1_part:
  assumes "ch \<noteq> []" and "length ch \<le> utf8_len (hd ch)"
  shows "lower1 ch \<noteq> [] \<and> length (lower1 ch) \<le> utf8_len (hd (lower1 ch))"
  using assms by (cases ch) simp_all

lemma chunked_strip: "chunked (map strip1 (chunks s))"
  by (rule chunked_map [OF strip1_full strip1_part chunked_chunks])

definition normal_chunk :: "string \<Rightarrow> string" where
  "normal_chunk ch = lower1 (strip1 ch)"

lemma map_normal_chunk: "map lower1 (map strip1 cs) = map normal_chunk cs"
  by (induction cs) (simp_all add: normal_chunk_def)

lemma bert_normalize_prompt_map:
  "bert_normalize_prompt s = concat (map normal_chunk (chunks s))"
  by (simp only: bert_normalize_prompt_chunks chunks_concat [OF chunked_strip] map_normal_chunk)

lemma chunked_normal: "chunked (map normal_chunk (chunks s))"
proof -
  have "chunked (map lower1 (map strip1 (chunks s)))"
    by (rule chunked_map [OF lower1_full lower1_part chunked_strip])
  then show ?thesis by (simp only: map_normal_chunk)
qed

lemma lower1_lower1: "lower1 (lower1 ch) = lower1 ch"
  by (cases ch) simp_all

lemma accentMap_lower1: "accentMap ch = None \<Longrightarrow> accentMap (lower1 ch) = None"
proof (cases ch)
  case Nil
  then show "accentMap ch = None \<Longrightarrow> accentMap (lower1 ch) = None" by simp
next
  case (Cons c cs)
  assume none: "accentMap ch = None"
  show "accentMap (lower1 ch) = None"
  proof (cases "lower c = c")
    case True
    with Cons none show ?thesis by simp
  next
    case False
    then have "65 \<le> (of_char c :: nat) \<and> (of_char c :: nat) \<le> 90"
      by (auto simp: lower_def split: if_splits)
    then have "(of_char (lower c) :: nat) \<noteq> 195" by (simp add: of_char_lower)
    then show ?thesis
      using accentMap_SomeD(2) [of "lower1 ch"] Cons by (cases "accentMap (lower1 ch)") auto
  qed
qed

lemma normal_chunk_idem: "normal_chunk (normal_chunk ch) = normal_chunk ch"
proof (cases "accentMap ch")
  case None
  then have "strip1 ch = ch" by (simp add: strip1_def)
  moreover from accentMap_lower1 [OF None] have "strip1 (lower1 ch) = lower1 ch"
    by (simp add: strip1_def)
  ultimately show ?thesis by (simp add: lower1_lower1 normal_chunk_def)
next
  case (Some a)
  then have s: "strip1 ch = [a]" by (simp add: strip1_def)
  have "accentMap [lower a] = None"
    using accentMap_SomeD(1) [of "[lower a]"] by (cases "accentMap [lower a]") auto
  then have "strip1 [lower a] = [lower a]" by (simp add: strip1_def)
  with s show ?thesis by (simp add: normal_chunk_def)
qed

lemma map_normal_chunk_idem: "map normal_chunk (map normal_chunk cs) = map normal_chunk cs"
  by (induction cs) (simp_all add: normal_chunk_idem)

text \<open>Two scenarios of the spec.\<close>

lemma normalize_examples:
  "bert_normalize_prompt [CHR ''C'', CHR ''a'', CHR ''f'', CHR 0xC3, CHR 0xA9] = ''cafe''"
  "bert_normalize_prompt ''Hello, World!'' = ''hello, world!''"
  by code_simp+

text \<open>
  C8.  Normalizing twice is normalizing once, for every byte string (well-formed UTF-8
  or not): a piece that is a key of the accent map becomes one ASCII letter, any other
  piece keeps its first byte up to case, so the pieces of the output are the images of
  the pieces of the input, and the map on pieces is idempotent.
\<close>

theorem bert_normalize_prompt_idempotent:
  "bert_normalize_prompt (bert_normalize_prompt s) = bert_normalize_prompt s"
proof -
  have "bert_normalize_prompt (bert_normalize_prompt s) =
          concat (map normal_chunk (chunks (concat (map normal_chunk (chunks s)))))"
    by (simp only: bert_normalize_prompt_map)
  also have "chunks (concat (map normal_chunk (chunks s))) = map normal_chunk (chunks s)"
    by (rule chunks_concat [OF chunked_normal])
  also have "map normal_chunk (map normal_chunk (chunks s)) = map normal_chunk (chunks s)"
    by (rule map_normal_chunk_idem)
  also have "concat (map normal_chunk (chunks s)) = bert_normalize_prompt s"
    by (simp only: bert_normalize_prompt_map)
  finally show ?thesis .
qed

section \<open>The pre-split against its description\<close>

text \<open>
  The description of stage A, written down from the spec's words for comparison with
  \<open>presplit\<close>.  The codepoints of a string are its pieces (\<open>chunks\<close>: the byte length
  of a codepoint is read off its leading byte).  \<open>cjk_ranges\<close> is the spec's list of
  ranges in its order; \<open>utf8_scalar3\<close> is the scalar encoded by the three bytes
  \<open>1110xxxx 10yyyyyy 10zzzzzz\<close>.  A codepoint is isolated when it is a single byte
  that \<open>ispunct\<close> accepts, or a 3-byte codepoint whose scalar is in a listed range;
  \<open>presplit_spec\<close> puts one space before and one after each isolated codepoint and
  copies every other codepoint.
\<close>

definition cjk_ranges :: "(nat \<times> nat) list" where
  "cjk_ranges =
     [(0x4E00, 0x9FFF), (0x3400, 0x4DBF), (0x20000, 0x2A6DF), (0x2A700, 0x2B73F),
      (0x2B740, 0x2B81F), (0x2B920, 0x2CEAF), (0xF900, 0xFAFF), (0x2F800, 0x2FA1F),
      (0x3000, 0x303F), (0xFF00, 0xFFEF)]"

definition in_listed_ranges :: "nat \<Rightarrow> bool" where
  "in_listed_ranges cp = list_ex (\<lambda>(lo, hi). lo \<le> cp \<and> cp \<le> hi) cjk_ranges"

definition utf8_scalar3 :: "char \<Rightarrow> char \<Rightarrow> char \<Rightarrow> nat" where
  "utf8_scalar3 b0 b1 b2 =
     (of_char b0 mod 16) * 4096 + (of_char b1 mod 64) * 64 + of_char b2 mod 64"

definition isolated :: "string \<Rightarrow> bool" where
  "isolated cp =
     (case cp of
        [c] \<Rightarrow> utf8_len c = 1 \<and> ispunct c
      | [b0, b1, b2] \<Rightarrow> utf8_len b0 = 3 \<and> in_listed_ranges (utf8_scalar3 b0 b1 b2)
      | _ \<Rightarrow> False)"

definition isolate :: "string \<Rightarrow> string" where
  "isolate cp = (if isolated cp then '' '' @ cp @ '' '' else cp)"

definition presplit_spec :: "string \<Rightarrow> string" where
  "presplit_spec s = concat (map isolate (chunks s))"

text \<open>
  A continuation byte is \<open>10xxxxxx\<close>.  \<open>utf8_conts s\<close>: in every codepoint of \<open>s\<close> the
  bytes after the leading byte are continuation bytes, as in any well-formed UTF-8
  string (a codepoint cut short by the end of the string is allowed).
\<close>

definition is_cont :: "char \<Rightarrow> bool" where
  "is_cont b = (128 \<le> (of_char b :: nat) \<and> (of_char b :: nat) < 192)"

definition utf8_conts :: "string \<Rightarrow> bool" where
  "utf8_conts s = list_all (\<lambda>cp. list_all is_cont (tl cp)) (chunks s)"

lemma and_3f: "(x::nat) AND 0x3f = x mod 64"
proof -
  have "x AND mask 6 = x mod 2 ^ 6"
    by (simp only: take_bit_eq_mask [symmetric] take_bit_eq_mod)
  moreover have "mask 6 = (0x3f::nat)" by (simp add: mask_eq_exp_minus_1)
  ultimately show ?thesis by simp
qed

lemma and_0f: "(x::nat) AND 0x0f = x mod 16"
proof -
  have "x AND mask 4 = x mod 2 ^ 4"
    by (simp only: take_bit_eq_mask [symmetric] take_bit_eq_mod)
  moreover have "mask 4 = (0x0f::nat)" by (simp add: mask_eq_exp_minus_1)
  ultimately show ?thesis by simp
qed

lemma push_or: "y < 64 \<Longrightarrow> push_bit 6 (x::nat) OR y = x * 64 + y"
proof -
  assume "y < 64"
  then have y: "take_bit 6 y = y" by (simp add: take_bit_nat_eq_self)
  have "push_bit 6 x + take_bit 6 y = push_bit 6 x OR take_bit 6 y"
    by (rule disjunctive_add) (auto simp: bit_simps)
  with y show ?thesis by (simp add: push_bit_eq_mult)
qed


lemma in_cjk_ranges_listed: "in_cjk_ranges cp = in_listed_ranges cp"
  by (simp add: in_cjk_ranges_def in_listed_ranges_def cjk_ranges_def)

lemma is_cont_drop_bit: "drop_bit 6 (of_char b :: nat) = 2 \<longleftrightarrow> is_cont b"
proof -
  have "(of_char b :: nat) div 64 = 2 \<longleftrightarrow> 128 \<le> (of_char b :: nat) \<and> (of_char b :: nat) < 192"
    by arith
  then show ?thesis by (simp add: drop_bit_eq_div is_cont_def)
qed

lemma is_chinese_char_3:
  assumes "utf8_len c = 3"
  shows "is_chinese_char (c # r) =
           (case r of
              b1 # b2 # _ \<Rightarrow> is_cont b1 \<and> is_cont b2 \<and> in_cjk_ranges (utf8_scalar3 c b1 b2)
            | _ \<Rightarrow> False)"
proof -
  from assms have c: "224 \<le> (of_char c :: nat)" "(of_char c :: nat) < 240"
    by (auto simp: utf8_len_eq split: if_splits)
  then have b1: "\<not> (of_char c :: nat) \<le> 0x7f" by simp
  from c have "(of_char c :: nat) div 32 = 7" by arith
  then have b2: "drop_bit 5 (of_char c :: nat) \<noteq> 0x06" by (simp add: drop_bit_eq_div)
  from c have "(of_char c :: nat) div 16 = 14" by arith
  then have b3: "drop_bit 4 (of_char c :: nat) = 0x0e" by (simp add: drop_bit_eq_div)
  have head: "is_chinese_char (c # r) =
      (case cont_loop (c # r) 3 1 (of_char c mod 16) of None \<Rightarrow> False
       | Some cp \<Rightarrow> in_cjk_ranges cp)"
    using b1 b2 b3 by (simp add: is_chinese_char_def and_0f)
  have main: "(case cont_loop (c # r) 3 1 (of_char c mod 16) of None \<Rightarrow> False
       | Some cp \<Rightarrow> in_cjk_ranges cp) =
          (case r of
              b1 # b2 # _ \<Rightarrow> is_cont b1 \<and> is_cont b2 \<and> in_cjk_ranges (utf8_scalar3 c b1 b2)
            | _ \<Rightarrow> False)"
  proof (cases r)
    case Nil
    then show ?thesis by (simp add: cont_loop.simps)
  next
    case r1: (Cons x1 r')
    show ?thesis
    proof (cases r')
      case Nil
      with r1 show ?thesis
        by (simp add: cont_loop.simps is_cont_drop_bit Let_def)
    next
      case (Cons x2 r'')
      have "(of_char x1 :: nat) mod 64 < 64" "(of_char x2 :: nat) mod 64 < 64" by simp_all
      then show ?thesis
        using r1 Cons
        by (simp add: cont_loop.simps is_cont_drop_bit Let_def and_3f push_or
              utf8_scalar3_def algebra_simps)
    qed
  qed
  show ?thesis by (simp only: head main)
qed


lemma chunks_step:
  "chunks (c # cs) = (c # take (utf8_len c - 1) cs) # chunks (drop (utf8_len c - 1) cs)"
proof -
  obtain n where "utf8_len c = Suc n"
    using utf8_len_pos [of c] by (cases "utf8_len c") auto
  then show ?thesis by (simp add: chunks_Cons [of c cs])
qed

lemma presplit_spec_step:
  "presplit_spec (c # cs) =
     isolate (c # take (utf8_len c - 1) cs) @ presplit_spec (drop (utf8_len c - 1) cs)"
  by (simp add: presplit_spec_def chunks_step)

lemma utf8_conts_step:
  "utf8_conts (c # cs) \<longleftrightarrow>
     list_all is_cont (take (utf8_len c - 1) cs) \<and> utf8_conts (drop (utf8_len c - 1) cs)"
  by (simp add: utf8_conts_def chunks_step)

lemma is_cont_len: "is_cont b \<Longrightarrow> utf8_len b = 1"
  by (simp add: is_cont_def utf8_len_eq)

lemma ispunct_ascii: "ispunct c \<Longrightarrow> (of_char c :: nat) < 128"
  by (auto simp: ispunct_def Let_def)

lemma is_cont_not_isolated: "is_cont b \<Longrightarrow> \<not> isolated [b]"
  using ispunct_ascii [of b] by (auto simp: isolated_def is_cont_def)

lemma presplit_spec_conts:
  "list_all is_cont t \<Longrightarrow> presplit_spec (t @ rest) = t @ presplit_spec rest"
proof (induction t)
  case Nil
  then show ?case by simp
next
  case (Cons b t)
  then have "utf8_len b = 1" "\<not> isolated [b]"
    by (simp_all add: is_cont_len is_cont_not_isolated)
  with Cons show ?case
    by (simp add: presplit_spec_step [of b] isolate_def)
qed

lemma utf8_conts_conts:
  "list_all is_cont t \<Longrightarrow> utf8_conts (t @ rest) = utf8_conts rest"
proof (induction t)
  case Nil
  then show ?case by simp
next
  case (Cons b t)
  then have "utf8_len b = 1" by (simp add: is_cont_len)
  with Cons show ?case by (simp add: utf8_conts_step [of b])
qed

lemma take_3_Cons: "take 3 (c # cs) = c # take 2 cs"
  by (simp add: take_Cons')

lemma isolated_lead: "isolated (c # t) \<Longrightarrow> utf8_len c = 1 \<or> utf8_len c = 3"
  by (auto simp: isolated_def split: list.splits)

lemma isolated_single: "isolated [c] \<longleftrightarrow> utf8_len c = 1 \<and> ispunct c"
  by (simp add: isolated_def)

lemma isolated_pair: "\<not> isolated [c, b1]"
  by (simp add: isolated_def)

lemma isolated_triple:
  "isolated [c, b1, b2] \<longleftrightarrow> utf8_len c = 3 \<and> in_listed_ranges (utf8_scalar3 c b1 b2)"
  by (simp add: isolated_def)

lemma isolated_iff:
  assumes "utf8_conts (c # cs)"
  shows "isolated (c # take (utf8_len c - 1) cs) \<longleftrightarrow>
           (utf8_len c = 1 \<and> ispunct c) \<or> (utf8_len c = 3 \<and> is_chinese_char (take 3 (c # cs)))"
proof -
  from assms have conts: "list_all is_cont (take (utf8_len c - 1) cs)"
    by (simp add: utf8_conts_step)
  show ?thesis
  proof (cases "utf8_len c = 1")
    case True
    then show ?thesis by (simp add: isolated_single)
  next
    case not1: False
    show ?thesis
    proof (cases "utf8_len c = 3")
      case False
      with not1 isolated_lead [of c "take (utf8_len c - 1) cs"] show ?thesis by blast
    next
      case l: True
      then have l2: "utf8_len c - 1 = 2" by simp
      have goal: "isolated (c # take 2 cs) \<longleftrightarrow> is_chinese_char (c # take 2 cs)"
      proof (cases cs)
        case Nil
        with l show ?thesis by (simp add: isolated_single is_chinese_char_3)
      next
        case c1: (Cons b1 cs')
        show ?thesis
        proof (cases cs')
          case Nil
          with c1 have "take 2 cs = [b1]" by simp
          with l show ?thesis by (simp add: isolated_pair is_chinese_char_3)
        next
          case (Cons b2 cs'')
          with c1 have t2: "take 2 cs = [b1, b2]" by (simp add: take_Cons')
          from conts have "list_all is_cont [b1, b2]" by (simp only: l2 t2)
          then have "is_cont b1" "is_cont b2" by simp_all
          with l show ?thesis
            by (simp add: t2 isolated_triple is_chinese_char_3 in_cjk_ranges_listed)
        qed
      qed
      from l not1 goal show ?thesis by (simp only: l2 take_3_Cons) simp
    qed
  qed
qed

lemma isolated_length:
  assumes "isolated cp" and "utf8_len (hd cp) = 3"
  shows "length cp = 3"
  using assms by (auto simp: isolated_def split: list.splits)

lemma presplit_loop_punct:
  assumes "i < length s" and "utf8_len (s ! i) = 1 \<and> ispunct (s ! i)"
  shows "presplit_loop s i acc = presplit_loop s (i + 1) (acc @ '' '' @ [s ! i] @ '' '')"
  using assms by (simp add: presplit_loop.simps [of s i acc])

lemma presplit_loop_cjk:
  assumes "i < length s" and "\<not> (utf8_len (s ! i) = 1 \<and> ispunct (s ! i))"
    and "utf8_len (s ! i) = 3 \<and> is_chinese_char (substr s i 3)"
  shows "presplit_loop s i acc = presplit_loop s (i + 3) (acc @ '' '' @ substr s i 3 @ '' '')"
  using assms by (simp add: presplit_loop.simps [of s i acc])

lemma presplit_loop_copy:
  assumes "i < length s" and "\<not> (utf8_len (s ! i) = 1 \<and> ispunct (s ! i))"
    and "\<not> (utf8_len (s ! i) = 3 \<and> is_chinese_char (substr s i 3))"
  shows "presplit_loop s i acc = presplit_loop s (i + 1) (acc @ [s ! i])"
  using assms by (auto simp add: presplit_loop.simps [of s i acc] Let_def)

lemma presplit_loop_end:
  assumes "\<not> i < length s"
  shows "presplit_loop s i acc = acc"
  using assms by (simp add: presplit_loop.simps [of s i acc])

lemma presplit_loop_spec:
  "utf8_conts (drop i s) \<Longrightarrow> presplit_loop s i acc = acc @ presplit_spec (drop i s)"
proof (induction s i acc rule: presplit_loop.induct)
  case (1 s i acc)
  show ?case
  proof (cases "i < length s")
    case False
    then show ?thesis by (simp add: presplit_loop_end presplit_spec_def)
  next
    case True
    define c where "c = s ! i"
    define cs where "cs = drop (Suc i) s"
    define len where "len = utf8_len c"
    from True have d: "drop i s = c # cs"
      by (simp add: Cons_nth_drop_Suc c_def cs_def)
    from "1.prems" have wf: "utf8_conts (c # cs)" by (simp only: d)
    have conts: "list_all is_cont (take (len - 1) cs)"
      and wf_rest: "utf8_conts (drop (len - 1) cs)"
      using wf by (simp_all add: utf8_conts_step len_def)
    have sub3: "substr s i 3 = take 3 (c # cs)"
      by (simp only: substr_def d)
    have iso: "isolated (c # take (len - 1) cs) \<longleftrightarrow>
           (len = 1 \<and> ispunct c) \<or> (len = 3 \<and> is_chinese_char (substr s i 3))"
      using isolated_iff [OF wf] by (simp only: len_def sub3)
    have spec: "presplit_spec (drop i s) =
        isolate (c # take (len - 1) cs) @ presplit_spec (drop (len - 1) cs)"
      by (simp only: d presplit_spec_step len_def)
    have drop_rest: "drop (len - 1) cs = drop (i + len) s"
      using utf8_len_pos [of c] by (simp add: cs_def len_def add.commute)
    show ?thesis
    proof (cases "len = 1 \<and> ispunct c")
      case A: True
      then have A': "utf8_len (s ! i) = 1 \<and> ispunct (s ! i)" by (simp add: len_def c_def)
      from A have tk: "take (len - 1) cs = []" by simp
      from wf_rest drop_rest A have "utf8_conts (drop (i + 1) s)" by simp
      from "1.IH"(1) [OF True refl A' this]
      have ih: "presplit_loop s (i + 1) (acc @ '' '' @ [s ! i] @ '' '') =
            (acc @ '' '' @ [s ! i] @ '' '') @ presplit_spec (drop (i + 1) s)" .
      from A iso have "isolate (c # take (len - 1) cs) = '' '' @ [c] @ '' ''"
        by (simp add: isolate_def tk)
      with spec drop_rest A have "presplit_spec (drop i s) = '' '' @ [c] @ '' '' @ presplit_spec (drop (i + 1) s)"
        by simp
      with ih show ?thesis
        by (simp add: presplit_loop_punct [OF True A'] c_def)
    next
      case notA: False
      then have notA': "\<not> (utf8_len (s ! i) = 1 \<and> ispunct (s ! i))" by (simp add: len_def c_def)
      show ?thesis
      proof (cases "len = 3 \<and> is_chinese_char (substr s i 3)")
        case B: True
        then have B': "utf8_len (s ! i) = 3 \<and> is_chinese_char (substr s i 3)"
          by (simp add: len_def c_def)
        from B have l2: "len - 1 = 2" by simp
        from B iso have iso_c: "isolated (c # take (len - 1) cs)" by simp
        have s3: "substr s i 3 = c # take (len - 1) cs"
          by (simp only: sub3 take_3_Cons l2)
        from wf_rest drop_rest B have "utf8_conts (drop (i + 3) s)" by simp
        from "1.IH"(2) [OF True refl notA' B' this]
        have ih: "presplit_loop s (i + 3) (acc @ '' '' @ substr s i 3 @ '' '') =
              (acc @ '' '' @ substr s i 3 @ '' '') @ presplit_spec (drop (i + 3) s)" .
        from iso_c have "isolate (c # take (len - 1) cs) = '' '' @ substr s i 3 @ '' ''"
          by (simp add: isolate_def s3)
        with spec drop_rest B have "presplit_spec (drop i s) =
            '' '' @ substr s i 3 @ '' '' @ presplit_spec (drop (i + 3) s)"
          by simp
        with ih show ?thesis
          by (simp add: presplit_loop_cjk [OF True notA' B'])
      next
        case notB: False
        then have notB': "\<not> (utf8_len (s ! i) = 3 \<and> is_chinese_char (substr s i 3))"
          by (simp add: len_def c_def)
        from notA notB iso have ni: "\<not> isolated (c # take (len - 1) cs)"
          by simp
        have wf_cs: "utf8_conts cs"
          using utf8_conts_conts [OF conts, of "drop (len - 1) cs"] wf_rest by simp
        have spec_cs: "presplit_spec cs = take (len - 1) cs @ presplit_spec (drop (len - 1) cs)"
          using presplit_spec_conts [OF conts, of "drop (len - 1) cs"] by simp
        from wf_cs have "utf8_conts (drop (i + 1) s)" by (simp add: cs_def)
        from "1.IH"(3) [OF True refl notA' notB' this]
        have ih: "presplit_loop s (i + 1) (acc @ [s ! i]) =
                    (acc @ [s ! i]) @ presplit_spec (drop (i + 1) s)" .
        have "presplit_spec (drop i s) = c # presplit_spec cs"
          using ni spec spec_cs by (simp add: isolate_def)
        with ih show ?thesis
          by (simp add: presplit_loop_copy [OF True notA' notB'] c_def cs_def)
      qed
    qed
  qed
qed

text \<open>
  C9.  On a string whose codepoints have continuation bytes after their leading byte,
  the pre-split of the source is the described rewrite: exactly the punctuation bytes
  and the 3-byte codepoints with a scalar in a listed range get a space on either side,
  every other codepoint is copied as it is.  A scalar of three bytes is below
  \<open>0x10000\<close>, so the listed ranges from \<open>0x20000\<close> upwards (the range starting at
  \<open>0x2B920\<close> among them) never apply to a 3-byte codepoint, in the source as in the
  description.
\<close>

theorem presplit_refines_spec:
  "utf8_conts s \<Longrightarrow> presplit s = presplit_spec s"
  using presplit_loop_spec [of 0 s "[]"] by (simp add: presplit_def)

theorem presplit_refines_spec_witness:
  "utf8_conts [CHR 0xE4, CHR 0xBD, CHR 0xA0, CHR ''!'', CHR ''a'', CHR 0xC3, CHR 0xA9] \<and>
   presplit [CHR 0xE4, CHR 0xBD, CHR 0xA0, CHR ''!'', CHR ''a'', CHR 0xC3, CHR 0xA9] =
   presplit_spec [CHR 0xE4, CHR 0xBD, CHR 0xA0, CHR ''!'', CHR ''a'', CHR 0xC3, CHR 0xA9]"
proof -
  have wf: "utf8_conts [CHR 0xE4, CHR 0xBD, CHR 0xA0, CHR ''!'', CHR ''a'', CHR 0xC3, CHR 0xA9]"
    by (simp add: utf8_conts_def chunks_step utf8_len_eq is_cont_def)
  from wf presplit_refines_spec [OF wf] show ?thesis by (rule conjI)
qed

lemma presplit_example:
  "presplit [CHR 0xE4, CHR 0xBD, CHR 0xA0, CHR ''!'', CHR ''a'', CHR 0xC3, CHR 0xA9] =
     [CHR '' '', CHR 0xE4, CHR 0xBD, CHR 0xA0, CHR '' '', CHR '' '', CHR ''!'', CHR '' '',
      CHR ''a'', CHR 0xC3, CHR 0xA9]"
  by (simp add: presplit_def presplit_loop.simps utf8_len_eq ispunct_def substr_def
        is_chinese_char_3 is_cont_def in_cjk_ranges_def utf8_scalar3_def)

text \<open>
  The scalar of three bytes is below \<open>0x10000\<close>.  A codepoint of the range starting at
  \<open>0x2B920\<close> has four bytes: \<open>is_chinese_char\<close> accepts it, but the pre-split asks
  \<open>is_chinese_char\<close> only about 3-byte codepoints and copies it.
\<close>

lemma utf8_scalar3_bound: "utf8_scalar3 b0 b1 b2 < 0x10000"
proof -
  have "(of_char b0 :: nat) mod 16 \<le> 15" "(of_char b1 :: nat) mod 64 \<le> 63"
    "(of_char b2 :: nat) mod 64 \<le> 63"
    by simp_all
  then show ?thesis unfolding utf8_scalar3_def by linarith
qed

lemma supplementary_not_isolated:
  "is_chinese_char [CHR 0xF0, CHR 0xAB, CHR 0xA4, CHR 0xA0] \<and>
   presplit [CHR 0xF0, CHR 0xAB, CHR 0xA4, CHR 0xA0] = [CHR 0xF0, CHR 0xAB, CHR 0xA4, CHR 0xA0]"
  by (simp add: presplit_def presplit_loop.simps utf8_len_eq ispunct_def
        is_chinese_char_def cont_loop.simps in_cjk_ranges_def drop_bit_eq_div push_bit_eq_mult
        and_3f)

text \<open>
  Without the hypothesis the two differ: after a leading byte that is not followed by
  continuation bytes, the source looks at the next byte on its own.
\<close>

lemma presplit_ill_formed:
  "presplit [CHR 0xC3, CHR ''!''] = [CHR 0xC3, CHR '' '', CHR ''!'', CHR '' ''] \<and>
   presplit_spec [CHR 0xC3, CHR ''!''] = [CHR 0xC3, CHR ''!'']"
  by (simp add: presplit_def presplit_loop.simps utf8_len_eq ispunct_def substr_def
        presplit_spec_def chunks_step isolate_def isolated_def)

section \<open>Facts about the loader\<close>

subsection \<open>The vocabulary\<close>

text \<open>
  \<open>first_at ts w i\<close>: \<open>i\<close> is the first index of \<open>w\<close> in the token list;
  \<open>last_at ts w i\<close>: \<open>i\<close> is its last index.
\<close>

lemma load_vocab_loop_fold:
  "load_vocab_loop ts i v = fold (\<lambda>k. load_vocab_entry k (ts ! k)) [i ..< length ts] v"
proof (induction ts i v rule: load_vocab_loop.induct)
  case (1 ts i v)
  show ?case
  proof (cases "i < length ts")
    case True
    then have "[i ..< length ts] = i # [i + 1 ..< length ts]"
      by (simp add: upt_conv_Cons)
    with True "1.IH" [OF True] show ?thesis
      by (simp add: load_vocab_loop.simps [of ts i v])
  next
    case False
    then show ?thesis by (simp add: load_vocab_loop.simps [of ts i v])
  qed
qed

lemma load_vocab_Nil: "load_vocab [] = empty_vocab"
  by (simp add: load_vocab_def load_vocab_loop_fold)

lemma load_vocab_snoc:
  "load_vocab (ts @ [w]) = load_vocab_entry (length ts) w (load_vocab ts)"
proof -
  have "fold (\<lambda>k. load_vocab_entry k ((ts @ [w]) ! k)) [0 ..< length ts] empty_vocab =
        fold (\<lambda>k. load_vocab_entry k (ts ! k)) [0 ..< length ts] empty_vocab"
    by (rule fold_cong) (simp_all add: nth_append)
  then show ?thesis
    by (simp add: load_vocab_def load_vocab_loop_fold)
qed

lemma token_to_id_entry:
  "token_to_id (load_vocab_entry i word vocab) =
     (if token_to_id vocab word = None then (token_to_id vocab)(word \<mapsto> int i)
      else token_to_id vocab)"
  by (cases "token_to_id vocab word") (simp_all add: load_vocab_entry_def Let_def)

lemma subword_token_to_id_entry:
  "subword_token_to_id (load_vocab_entry i word vocab) =
     (if has_subword_prefix word then (subword_token_to_id vocab)(drop 2 word \<mapsto> int i)
      else subword_token_to_id vocab)"
  by (simp add: load_vocab_entry_def Let_def)

lemma has_subword_prefix_iff: "has_subword_prefix word \<longleftrightarrow> (\<exists>u. word = ''##'' @ u)"
  by (auto simp: has_subword_prefix_def split: list.splits)

definition first_at :: "string list \<Rightarrow> string \<Rightarrow> nat \<Rightarrow> bool" where
  "first_at ts w i = (i < length ts \<and> ts ! i = w \<and> (\<forall>j. j < i \<longrightarrow> ts ! j \<noteq> w))"

definition last_at :: "string list \<Rightarrow> string \<Rightarrow> nat \<Rightarrow> bool" where
  "last_at ts w i = (i < length ts \<and> ts ! i = w \<and> (\<forall>j. i < j \<and> j < length ts \<longrightarrow> ts ! j \<noteq> w))"

lemma first_at_snoc:
  "first_at (ts @ [x]) w i \<longleftrightarrow> first_at ts w i \<or> (i = length ts \<and> x = w \<and> w \<notin> set ts)"
proof (cases "i < length ts")
  case True
  then show ?thesis by (auto simp: first_at_def nth_append)
next
  case False
  show ?thesis
  proof (cases "i = length ts")
    case True
    have "(\<forall>j. j < length ts \<longrightarrow> (ts @ [x]) ! j \<noteq> w) \<longleftrightarrow> w \<notin> set ts"
      by (auto simp: nth_append in_set_conv_nth)
    with True show ?thesis by (auto simp: first_at_def)
  next
    case neq: False
    with False show ?thesis by (auto simp: first_at_def)
  qed
qed

lemma last_at_snoc:
  "last_at (ts @ [x]) w i \<longleftrightarrow> (last_at ts w i \<and> x \<noteq> w) \<or> (i = length ts \<and> x = w)"
proof (cases "i < length ts")
  case True
  have "(\<forall>j. i < j \<and> j < Suc (length ts) \<longrightarrow> (ts @ [x]) ! j \<noteq> w) \<longleftrightarrow>
        (\<forall>j. i < j \<and> j < length ts \<longrightarrow> ts ! j \<noteq> w) \<and> x \<noteq> w"
  proof
    assume a: "\<forall>j. i < j \<and> j < Suc (length ts) \<longrightarrow> (ts @ [x]) ! j \<noteq> w"
    have "\<forall>j. i < j \<and> j < length ts \<longrightarrow> ts ! j \<noteq> w"
    proof (intro allI impI)
      fix j assume j: "i < j \<and> j < length ts"
      with a have "(ts @ [x]) ! j \<noteq> w" by simp
      with j show "ts ! j \<noteq> w" by (simp add: nth_append)
    qed
    moreover from a True have "(ts @ [x]) ! length ts \<noteq> w" by blast
    ultimately show "(\<forall>j. i < j \<and> j < length ts \<longrightarrow> ts ! j \<noteq> w) \<and> x \<noteq> w" by simp
  next
    assume b: "(\<forall>j. i < j \<and> j < length ts \<longrightarrow> ts ! j \<noteq> w) \<and> x \<noteq> w"
    show "\<forall>j. i < j \<and> j < Suc (length ts) \<longrightarrow> (ts @ [x]) ! j \<noteq> w"
    proof (intro allI impI)
      fix j assume j: "i < j \<and> j < Suc (length ts)"
      show "(ts @ [x]) ! j \<noteq> w"
      proof (cases "j < length ts")
        case True
        with b j show ?thesis by (simp add: nth_append)
      next
        case False
        with j have "j = length ts" by simp
        with b show ?thesis by simp
      qed
    qed
  qed
  with True show ?thesis by (auto simp: last_at_def nth_append)
next
  case False
  then show ?thesis by (auto simp: last_at_def nth_append)
qed

lemma token_to_id_None: "token_to_id (load_vocab ts) w = None \<longleftrightarrow> w \<notin> set ts"
proof (induction ts rule: rev_induct)
  case Nil
  then show ?case by (simp add: load_vocab_Nil empty_vocab_def)
next
  case (snoc x ts)
  then show ?case by (auto simp: load_vocab_snoc token_to_id_entry)
qed

lemma token_to_id_first:
  "token_to_id (load_vocab ts) w = Some k \<longleftrightarrow> (\<exists>i. k = int i \<and> first_at ts w i)"
proof (induction ts arbitrary: k rule: rev_induct)
  case Nil
  then show ?case by (simp add: load_vocab_Nil empty_vocab_def first_at_def)
next
  case (snoc x ts)
  show ?case
  proof (cases "token_to_id (load_vocab ts) x = None")
    case True
    then have x: "x \<notin> set ts" by (simp add: token_to_id_None)
    show ?thesis
    proof (cases "w = x")
      case True
      with x have "\<And>i. \<not> first_at ts w i" by (auto simp: first_at_def)
      with True x \<open>token_to_id (load_vocab ts) x = None\<close> show ?thesis
        by (auto simp: load_vocab_snoc token_to_id_entry first_at_snoc)
    next
      case False
      with True snoc show ?thesis
        by (auto simp: load_vocab_snoc token_to_id_entry first_at_snoc)
    qed
  next
    case False
    then have "x \<in> set ts" by (simp add: token_to_id_None)
    with False snoc show ?thesis
      by (auto simp: load_vocab_snoc token_to_id_entry first_at_snoc)
  qed
qed

lemma subword_token_to_id_last:
  "subword_token_to_id (load_vocab ts) u = Some k \<longleftrightarrow>
     (\<exists>i. k = int i \<and> last_at ts (''##'' @ u) i)"
proof (induction ts arbitrary: k rule: rev_induct)
  case Nil
  then show ?case by (simp add: load_vocab_Nil empty_vocab_def last_at_def)
next
  case (snoc x ts)
  show ?case
  proof (cases "x = ''##'' @ u")
    case True
    then have "has_subword_prefix x" "drop 2 x = u" by (simp_all add: has_subword_prefix_def)
    with True show ?thesis
      by (auto simp: load_vocab_snoc subword_token_to_id_entry last_at_snoc)
  next
    case False
    show ?thesis
    proof (cases "has_subword_prefix x")
      case hp: True
      then obtain u' where u': "x = ''##'' @ u'" by (auto simp: has_subword_prefix_iff)
      with False have "u' \<noteq> u" by auto
      with u' hp False snoc show ?thesis
        by (simp add: load_vocab_snoc subword_token_to_id_entry last_at_snoc)
    next
      case nhp: False
      with False snoc show ?thesis
        by (simp add: load_vocab_snoc subword_token_to_id_entry last_at_snoc)
    qed
  qed
qed

text \<open>
  C3, as the code has it.  An entry is entered in the whole-word map under its surface
  when the surface is not there yet, whether or not it begins with \<open>##\<close>: the id of a
  surface in the whole-word map is its first index in the token list, so no surface
  gets two ids there and the first occurrence is kept.  An entry that begins with
  \<open>##\<close> is moreover entered in the subword map under the surface without the prefix,
  replacing an earlier entry: the id of \<open>u\<close> in the subword map is the last index of
  \<open>##u\<close>.  So an entry with the prefix is in both maps.
\<close>

theorem load_vocab_registers:
  "(token_to_id (load_vocab ts) w = Some k \<longleftrightarrow> (\<exists>i. k = int i \<and> first_at ts w i)) \<and>
   (subword_token_to_id (load_vocab ts) u = Some k \<longleftrightarrow>
      (\<exists>i. k = int i \<and> last_at ts (''##'' @ u) i)) \<and>
   (n < length ts \<and> has_subword_prefix (ts ! n) \<longrightarrow>
      token_to_id (load_vocab ts) (ts ! n) \<noteq> None \<and>
      subword_token_to_id (load_vocab ts) (drop 2 (ts ! n)) \<noteq> None)"
proof (intro conjI impI)
  show "token_to_id (load_vocab ts) w = Some k \<longleftrightarrow> (\<exists>i. k = int i \<and> first_at ts w i)"
    by (rule token_to_id_first)
  show "subword_token_to_id (load_vocab ts) u = Some k \<longleftrightarrow>
      (\<exists>i. k = int i \<and> last_at ts (''##'' @ u) i)"
    by (rule subword_token_to_id_last)
next
  assume a: "n < length ts \<and> has_subword_prefix (ts ! n)"
  then have "ts ! n \<in> set ts" by simp
  then show "token_to_id (load_vocab ts) (ts ! n) \<noteq> None"
    by (simp add: token_to_id_None)
  from a obtain u where u: "ts ! n = ''##'' @ u" by (auto simp: has_subword_prefix_iff)
  have "\<exists>i. last_at ts (''##'' @ u) i"
  proof -
    let ?P = "\<lambda>i. i < length ts \<and> ts ! i = ''##'' @ u"
    from a u have "?P n" by simp
    moreover have "\<forall>i. ?P i \<longrightarrow> i \<le> length ts" by simp
    ultimately have "?P (Greatest ?P)" "\<forall>j. ?P j \<longrightarrow> j \<le> Greatest ?P"
      using GreatestI_nat [of ?P n "length ts"] Greatest_le_nat [of ?P _ "length ts"]
      by blast+
    then have "last_at ts (''##'' @ u) (Greatest ?P)"
      by (auto simp: last_at_def)
    then show ?thesis ..
  qed
  then obtain i where "last_at ts (''##'' @ u) i" ..
  then have "subword_token_to_id (load_vocab ts) u = Some (int i)"
    by (auto simp: subword_token_to_id_last)
  with u show "subword_token_to_id (load_vocab ts) (drop 2 (ts ! n)) \<noteq> None"
    by simp
qed

theorem load_vocab_registers_witness:
  "token_to_id (load_vocab [''##a'', ''b'', ''##a'', ''b'']) ''b'' = Some 1 \<and>
   subword_token_to_id (load_vocab [''##a'', ''b'', ''##a'', ''b'']) ''a'' = Some 2 \<and>
   token_to_id (load_vocab [''##a'', ''b'', ''##a'', ''b'']) ''##a'' \<noteq> None \<and>
   subword_token_to_id (load_vocab [''##a'', ''b'', ''##a'', ''b'']) (drop 2 ''##a'') \<noteq> None"
proof -
  let ?ts = "[''##a'', ''b'', ''##a'', ''b'']"
  have f: "first_at ?ts ''b'' 1" by (simp add: first_at_def)
  have l: "last_at ?ts (''##'' @ ''a'') 2"
    by (auto simp: last_at_def less_Suc_eq nth_Cons')
  have p: "0 < length ?ts \<and> has_subword_prefix (?ts ! 0)"
    by (simp add: has_subword_prefix_def)
  note t = load_vocab_registers [where ts = ?ts]
  from t [where w = "''b''" and k = 1, THEN conjunct1] f
  have 1: "token_to_id (load_vocab ?ts) ''b'' = Some 1" by (metis of_nat_1)
  from t [where u = "''a''" and k = 2, THEN conjunct2, THEN conjunct1] l
  have 2: "subword_token_to_id (load_vocab ?ts) ''a'' = Some 2" by (metis of_nat_numeral)
  from t [where n = 0, THEN conjunct2, THEN conjunct2, rule_format, OF p]
  have 3: "token_to_id (load_vocab ?ts) ''##a'' \<noteq> None \<and>
   subword_token_to_id (load_vocab ?ts) (drop 2 ''##a'') \<noteq> None" by simp
  from 1 2 3 show ?thesis by blast
qed

text \<open>
  C3, as the claim states it (an entry with the prefix is registered only in the
  subword map), fails on the one-entry list \<open>##a\<close>: the whole-word map has it too.
\<close>

theorem load_vocab_prefixed_in_whole_map:
  "token_to_id (load_vocab [''##a'']) ''##a'' = Some 0 \<and>
   subword_token_to_id (load_vocab [''##a'']) ''a'' = Some 0"
  by (simp add: load_vocab_def load_vocab_loop.simps load_vocab_entry_def empty_vocab_def
        has_subword_prefix_def)

subsection \<open>The hyperparameters\<close>

text \<open>
  Metadata of a model with hidden width 10 and 3 heads (no layers), for the concrete
  evaluations below.
\<close>

definition example_metadata :: gguf_context where
  "example_metadata = map_of
     [(''vocab_size'', U32 30522), (''max_position_embedding'', U32 512),
      (''hidden_size'', U32 10), (''intermediate_size'', U32 40),
      (''num_attention_heads'', U32 3), (''num_hidden_layers'', U32 0),
      (''layer_norm_eps'', F32 0x2B8CBCCC)]"

text \<open>
  C4, as the claim states it (a model with \<open>E mod H \<noteq> 0\<close> is rejected), fails: for
  \<open>E = 10\<close> and \<open>H = 3\<close> the hyperparameter block returns the record, and the graph
  builder derives the head dimension 3, with \<open>3 * 3 \<noteq> 10\<close>.
\<close>

theorem load_hparams_accepts_indivisible:
  "load_hparams example_metadata =
     Inr \<lparr>n_vocab = 30522, n_max_tokens = 512, n_embd = 10, n_intermediate = 40,
          n_head = 3, n_layer = 0, layer_norm_eps = 0x2B8CBCCC\<rparr> \<and>
   (10 :: int) mod 3 \<noteq> 0 \<and>
   d_head \<lparr>n_vocab = 30522, n_max_tokens = 512, n_embd = 10, n_intermediate = 40,
          n_head = 3, n_layer = 0, layer_norm_eps = 0x2B8CBCCC\<rparr> = Some 3"
  by (simp add: load_hparams_def example_metadata_def get_u32_def get_f32_def bind_load_def
        d_head_def c_div_def)

lemma c_div_nonneg: "0 \<le> a \<Longrightarrow> 0 < b \<Longrightarrow> c_div a b = a div b"
  by (simp add: c_div_def)

text \<open>
  C4, as the code has it.  The hyperparameter block succeeds whenever its seven keys are
  present with their types, whatever the values: the hidden width and the head count are
  stored as read, unrelated.  The graph builder then takes the truncated quotient as the
  head dimension (for a non-negative width and a positive head count, \<open>E div H\<close>).
\<close>

theorem load_hparams_no_shape_check:
  assumes "ctx ''vocab_size'' = Some (U32 v)"
    and "ctx ''max_position_embedding'' = Some (U32 m)"
    and "ctx ''hidden_size'' = Some (U32 e)"
    and "ctx ''intermediate_size'' = Some (U32 i)"
    and "ctx ''num_attention_heads'' = Some (U32 h)"
    and "ctx ''num_hidden_layers'' = Some (U32 l)"
    and "ctx ''layer_norm_eps'' = Some (F32 eps)"
  shows "load_hparams ctx =
           Inr \<lparr>n_vocab = sint v, n_max_tokens = sint m, n_embd = sint e,
                n_intermediate = sint i, n_head = sint h, n_layer = sint l,
                layer_norm_eps = eps\<rparr> \<and>
         (0 \<le> sint e \<and> 0 < sint h \<longrightarrow>
            d_head \<lparr>n_vocab = sint v, n_max_tokens = sint m, n_embd = sint e,
                n_intermediate = sint i, n_head = sint h, n_layer = sint l,
                layer_norm_eps = eps\<rparr> = Some (sint e div sint h))"
proof (intro conjI impI)
  from assms show "load_hparams ctx =
           Inr \<lparr>n_vocab = sint v, n_max_tokens = sint m, n_embd = sint e,
                n_intermediate = sint i, n_head = sint h, n_layer = sint l,
                layer_norm_eps = eps\<rparr>"
    by (simp add: load_hparams_def get_u32_def get_f32_def bind_load_def)
next
  assume "0 \<le> sint e \<and> 0 < sint h"
  then show "d_head \<lparr>n_vocab = sint v, n_max_tokens = sint m, n_embd = sint e,
                n_intermediate = sint i, n_head = sint h, n_layer = sint l,
                layer_norm_eps = eps\<rparr> = Some (sint e div sint h)"
    by (auto simp add: d_head_def c_div_nonneg)
qed

theorem load_hparams_no_shape_check_witness:
  "load_hparams example_metadata =
     Inr \<lparr>n_vocab = sint (30522 :: 32 word), n_max_tokens = sint (512 :: 32 word),
          n_embd = sint (10 :: 32 word), n_intermediate = sint (40 :: 32 word),
          n_head = sint (3 :: 32 word), n_layer = sint (0 :: 32 word),
          layer_norm_eps = 0x2B8CBCCC\<rparr> \<and>
   d_head \<lparr>n_vocab = sint (30522 :: 32 word), n_max_tokens = sint (512 :: 32 word),
          n_embd = sint (10 :: 32 word), n_intermediate = sint (40 :: 32 word),
          n_head = sint (3 :: 32 word), n_layer = sint (0 :: 32 word),
          layer_norm_eps = 0x2B8CBCCC\<rparr> = Some (sint (10 :: 32 word) div sint (3 :: 32 word))"
proof -
  have k: "example_metadata ''vocab_size'' = Some (U32 30522)"
    "example_metadata ''max_position_embedding'' = Some (U32 512)"
    "example_metadata ''hidden_size'' = Some (U32 10)"
    "example_metadata ''intermediate_size'' = Some (U32 40)"
    "example_metadata ''num_attention_heads'' = Some (U32 3)"
    "example_metadata ''num_hidden_layers'' = Some (U32 0)"
    "example_metadata ''layer_norm_eps'' = Some (F32 0x2B8CBCCC)"
    by (simp_all add: example_metadata_def)
  have pos: "0 \<le> sint (10 :: 32 word) \<and> 0 < sint (3 :: 32 word)" by simp
  from load_hparams_no_shape_check [OF k] pos show ?thesis by blast
qed

section \<open>Facts about the graph builder and the executor\<close>

subsection \<open>The pooling weight in binary32\<close>

text \<open>\<open>round_even\<close> is within one half of the quotient.\<close>

lemma round_even_near:
  assumes "0 < q"
  shows "\<bar>real (round_even p q) - real p / real q\<bar> \<le> 1 / 2"
proof -
  let ?m = "p div q" and ?r = "p mod q"
  have p: "real p = real q * real ?m + real ?r"
    by (metis mult_div_mod_eq of_nat_add of_nat_mult)
  from assms have r: "?r < q" by simp
  from assms p have quot: "real p / real q = real ?m + real ?r / real q"
    by (simp add: field_simps)
  show ?thesis
  proof (cases "q < 2 * ?r \<or> (2 * ?r = q \<and> odd ?m)")
    case True
    then have up: "round_even p q = ?m + 1" by (simp add: round_even_def Let_def)
    from True have "q \<le> 2 * ?r" by auto
    then have "real q \<le> 2 * real ?r" by (metis of_nat_le_iff of_nat_mult of_nat_numeral)
    with assms r show ?thesis unfolding up quot by (simp add: field_simps)
  next
    case False
    then have dn: "round_even p q = ?m" by (simp add: round_even_def Let_def)
    from False have "2 * ?r \<le> q" by auto
    then have "2 * real ?r \<le> real q" by (metis of_nat_le_iff of_nat_mult of_nat_numeral)
    with assms show ?thesis unfolding dn quot by (simp add: field_simps)
  qed
qed

text \<open>A length below \<open>2 ^ 24\<close> is converted without rounding.\<close>

lemma float_cast_small: "n < 2 ^ 24 \<Longrightarrow> float_cast n = n"
  by (simp add: float_cast_def floorlog_le_iff)

text \<open>
  The quotient is a binary32 number: a significand of 24 bits over a power of two.  It is
  within half a unit in the last place of \<open>1 / d\<close>, a relative error of at most
  \<open>2 ^ - 24\<close>, and it is \<open>1 / d\<close> itself when \<open>d\<close> is a power of two.
\<close>

lemma float_recip_significand:
  assumes "0 < d"
  shows "2 ^ 23 \<le> round_even (2 ^ (floorlog 2 d + 23)) d \<and>
         round_even (2 ^ (floorlog 2 d + 23)) d \<le> 2 ^ 24"
proof -
  let ?k = "floorlog 2 d"
  let ?N = "(2::nat) ^ (?k + 23)"
  let ?m = "round_even ?N d"
  from floorlog_bounds [of d 2] assms have "2 ^ (?k - 1) \<le> d" and "d < 2 ^ ?k" by simp_all
  moreover from assms have "?k \<noteq> 0" by (simp add: floorlog_eq_zero_iff)
  ultimately have "2 * d \<ge> 2 ^ ?k" and "d < 2 ^ ?k"
    by (cases ?k, simp_all)
  then have lo: "2 ^ 23 * real d \<le> real ?N" and hi: "real ?N \<le> 2 ^ 24 * real d"
  proof -
    assume a: "2 ^ ?k \<le> 2 * d" and b: "d < 2 ^ ?k"
    from b have "real d \<le> 2 ^ ?k" by (metis less_imp_le of_nat_le_iff of_nat_numeral of_nat_power)
    then show "2 ^ 23 * real d \<le> real ?N" by (simp add: power_add)
    from a have "(2::real) ^ ?k \<le> 2 * real d"
      by (metis of_nat_le_iff of_nat_mult of_nat_numeral of_nat_power)
    then show "real ?N \<le> 2 ^ 24 * real d" by (simp add: power_add)
  qed
  from assms lo have lo': "2 ^ 23 \<le> real ?N / real d" by (simp add: field_simps)
  from assms hi have hi': "real ?N / real d \<le> 2 ^ 24" by (simp add: field_simps)
  from round_even_near [OF assms, of ?N] lo' hi'
  have "2 ^ 23 - 1 / 2 \<le> real ?m" and "real ?m \<le> 2 ^ 24 + 1 / 2" by linarith+
  then have "real (2 ^ 23 - 1) < real ?m" and "real ?m < real (2 ^ 24 + 1)" by simp_all
  then have "2 ^ 23 - 1 < ?m" and "?m < 2 ^ 24 + 1" by (simp_all only: of_nat_less_iff)
  then show ?thesis by simp
qed

lemma float_recip_near:
  assumes "0 < d"
  shows "\<bar>float_recip d - 1 / real d\<bar> \<le> (1 / real d) / 2 ^ 24"
proof -
  let ?k = "floorlog 2 d"
  let ?N = "(2::nat) ^ (?k + 23)"
  from floorlog_bounds [of d 2] assms have d: "d < 2 ^ ?k" by simp
  have "\<bar>real (round_even ?N d) - real ?N / real d\<bar> \<le> 1 / 2"
    by (rule round_even_near [OF assms])
  then have "\<bar>real (round_even ?N d) - real ?N / real d\<bar> / real ?N \<le> (1 / 2) / real ?N"
    by (intro divide_right_mono) simp_all
  moreover have "float_recip d - 1 / real d = (real (round_even ?N d) - real ?N / real d) / real ?N"
    using assms by (simp add: float_recip_def Let_def diff_divide_distrib)
  then have "\<bar>real (round_even ?N d) - real ?N / real d\<bar> / real ?N =
      \<bar>float_recip d - 1 / real d\<bar>"
    by simp
  ultimately have a: "\<bar>float_recip d - 1 / real d\<bar> \<le> (1 / 2) / real ?N" by simp
  from d have "real d < 2 ^ ?k" by (metis of_nat_less_iff of_nat_numeral of_nat_power)
  then have "real d * 2 ^ 24 \<le> 2 * real ?N"
    by (simp add: power_add)
  with assms have "(1 / 2) / real ?N \<le> (1 / real d) / 2 ^ 24"
    by (simp add: field_simps)
  with a show ?thesis by simp
qed

lemma float_recip_pow2: "float_recip (2 ^ j) = 1 / 2 ^ j"
proof -
  have "floorlog 2 (1 * 2 ^ j) = floorlog 2 1 + j" by (rule floorlog_power) simp_all
  then have k: "floorlog 2 (2 ^ j) = Suc j" by (simp add: compute_floorlog)
  have "(2::nat) ^ (Suc j + 23) = 2 ^ 24 * 2 ^ j" by (simp add: power_add)
  then have "round_even (2 ^ (Suc j + 23)) (2 ^ j) = 2 ^ 24"
    by (simp add: round_even_def Let_def)
  then show ?thesis
    by (simp add: float_recip_def Let_def k power_add)
qed

lemma pooling_weight_near:
  assumes "0 < n" and "n < 2 ^ 24"
  shows "\<bar>float_recip (float_cast n) - 1 / real n\<bar> \<le> (1 / real n) / 2 ^ 24"
  using float_recip_near [OF assms(1)] by (simp add: float_cast_small [OF assms(2)])


subsection \<open>The input tensors\<close>

text \<open>
  \<open>sized n g\<close>: the four arrays have \<open>n\<close> cells.  \<open>cell_ok batch L g b i\<close>: cell
  \<open>b * L + i\<close> of each array holds what the loop body writes for row \<open>b\<close> and
  position \<open>i\<close>.
\<close>

definition sized :: "nat \<Rightarrow> graph_inputs \<Rightarrow> bool" where
  "sized n g = (length (token_layer_data g) = n \<and> length (pad_mask_data g) = n \<and>
                length (pos_data g) = n \<and> length (sum_data g) = n)"

definition cell_ok :: "bert_batch \<Rightarrow> nat \<Rightarrow> graph_inputs \<Rightarrow> nat \<Rightarrow> nat \<Rightarrow> bool" where
  "cell_ok batch L g b i =
     (token_layer_data g ! (b * L + i) = (if i < length (batch ! b) then batch ! b ! i else 101) \<and>
      pad_mask_data g ! (b * L + i) = (if i < length (batch ! b) then 1 else 0) \<and>
      sum_data g ! (b * L + i) =
        (if i < length (batch ! b) then float_recip (float_cast (length (batch ! b))) else 0) \<and>
      pos_data g ! (b * L + i) = int i)"

lemma cell_index_inj:
  fixes i j L b ba :: nat
  assumes "i < L" and "j < L"
  shows "b * L + j = ba * L + i \<longleftrightarrow> b = ba \<and> j = i"
proof
  assume eq: "b * L + j = ba * L + i"
  from assms have "(b * L + j) div L = b" "(ba * L + i) div L = ba"
    "(b * L + j) mod L = j" "(ba * L + i) mod L = i"
    by simp_all
  with eq show "b = ba \<and> j = i" by metis
next
  assume "b = ba \<and> j = i"
  then show "b * L + j = ba * L + i" by simp
qed

lemma cell_index_bound:
  fixes i L b B :: nat
  assumes "b < B" and "i < L"
  shows "b * L + i < L * B"
proof -
  from assms have "b * L + i < b * L + L" by simp
  also have "\<dots> = Suc b * L" by simp
  also from assms have "\<dots> \<le> B * L" by (intro mult_le_mono1) simp
  finally show ?thesis by (simp add: mult.commute)
qed

lemma fill_cell_sized: "sized n g \<Longrightarrow> sized n (fill_cell batch L ba i g)"
  by (simp add: sized_def fill_cell_def Let_def)

lemma fill_cell_here:
  assumes "sized n g" and "ba * L + i < n"
  shows "cell_ok batch L (fill_cell batch L ba i g) ba i"
  using assms by (simp add: sized_def fill_cell_def cell_ok_def Let_def)

lemma fill_cell_other:
  assumes "cell_ok batch L g b j" and "i < L" and "j < L" and "\<not> (b = ba \<and> j = i)"
  shows "cell_ok batch L (fill_cell batch L ba i g) b j"
proof -
  from assms cell_index_inj [of i L j b ba] have "ba * L + i \<noteq> b * L + j" by auto
  with assms(1) show ?thesis
    by (simp add: fill_cell_def cell_ok_def Let_def)
qed

lemma fill_row_prefix:
  assumes "sized n g" and "ba * L + L \<le> n" and "k \<le> L"
  shows "sized n (fold (fill_cell batch L ba) [0 ..< k] g) \<and>
         (\<forall>i < k. cell_ok batch L (fold (fill_cell batch L ba) [0 ..< k] g) ba i) \<and>
         (\<forall>b j. b \<noteq> ba \<and> j < L \<and> cell_ok batch L g b j \<longrightarrow>
                 cell_ok batch L (fold (fill_cell batch L ba) [0 ..< k] g) b j)"
  using assms(3)
proof (induction k)
  case 0
  with assms show ?case by simp
next
  case (Suc k)
  let ?g = "fold (fill_cell batch L ba) [0 ..< k] g"
  from Suc have k: "k < L" and ih: "sized n ?g"
    "\<forall>i < k. cell_ok batch L ?g ba i"
    "\<forall>b j. b \<noteq> ba \<and> j < L \<and> cell_ok batch L g b j \<longrightarrow> cell_ok batch L ?g b j"
    by simp_all
  have step: "fold (fill_cell batch L ba) [0 ..< Suc k] g = fill_cell batch L ba k ?g"
    by simp
  from k assms(2) have idx: "ba * L + k < n" by simp
  show ?case
    unfolding step
  proof (intro conjI allI impI)
    show "sized n (fill_cell batch L ba k ?g)" by (rule fill_cell_sized [OF ih(1)])
  next
    fix i assume i: "i < Suc k"
    show "cell_ok batch L (fill_cell batch L ba k ?g) ba i"
    proof (cases "i = k")
      case True
      with fill_cell_here [OF ih(1) idx] show ?thesis by simp
    next
      case False
      with i have "i < k" by simp
      with ih(2) have "cell_ok batch L ?g ba i" by simp
      from fill_cell_other [OF this k] \<open>i < k\<close> k False show ?thesis by simp
    qed
  next
    fix b j assume a: "b \<noteq> ba \<and> j < L \<and> cell_ok batch L g b j"
    with ih(3) have "cell_ok batch L ?g b j" by blast
    from fill_cell_other [OF this k] a show "cell_ok batch L (fill_cell batch L ba k ?g) b j"
      by simp
  qed
qed

lemma fill_row_cells:
  assumes "sized n g" and "ba * L + L \<le> n"
  shows "sized n (fill_row batch L ba g)"
    and "\<And>i. i < L \<Longrightarrow> cell_ok batch L (fill_row batch L ba g) ba i"
    and "\<And>b j. b \<noteq> ba \<Longrightarrow> j < L \<Longrightarrow> cell_ok batch L g b j \<Longrightarrow>
                 cell_ok batch L (fill_row batch L ba g) b j"
  using fill_row_prefix [OF assms, where k = L and batch = batch] by (auto simp: fill_row_def)

lemma fill_inputs_prefix:
  assumes "sized (L * B) g" and "k \<le> B"
  shows "sized (L * B) (fold (fill_row batch L) [0 ..< k] g) \<and>
         (\<forall>b < k. \<forall>i < L. cell_ok batch L (fold (fill_row batch L) [0 ..< k] g) b i)"
  using assms(2)
proof (induction k)
  case 0
  with assms show ?case by simp
next
  case (Suc k)
  let ?g = "fold (fill_row batch L) [0 ..< k] g"
  from Suc have k: "k < B" and ih: "sized (L * B) ?g"
    "\<forall>b < k. \<forall>i < L. cell_ok batch L ?g b i"
    by simp_all
  have step: "fold (fill_row batch L) [0 ..< Suc k] g = fill_row batch L k ?g"
    by simp
  from k have "Suc k * L \<le> B * L" by (intro mult_le_mono1) simp
  then have room: "k * L + L \<le> L * B" by (simp add: mult.commute)
  note row = fill_row_cells [OF ih(1) room, where batch = batch]
  show ?case
    unfolding step
  proof (intro conjI allI impI)
    show "sized (L * B) (fill_row batch L k ?g)" by (rule row(1))
  next
    fix b i assume b: "b < Suc k" and i: "i < L"
    show "cell_ok batch L (fill_row batch L k ?g) b i"
    proof (cases "b = k")
      case True
      with row(2) [OF i] show ?thesis by simp
    next
      case False
      with b have "b < k" by simp
      with ih(2) i have "cell_ok batch L ?g b i" by simp
      from row(3) [OF False i this] show ?thesis .
    qed
  qed
qed

lemma fill_inputs_cell:
  assumes "sized (L * length batch) g" and "b < length batch" and "i < L"
  shows "cell_ok batch L (fill_inputs batch L g) b i"
  using fill_inputs_prefix [OF assms(1), where k = "length batch" and batch = batch] assms(2,3)
  by (simp add: fill_inputs_def)

lemma sized_fresh: "sized n (fresh_inputs n)"
  by (simp add: sized_def fresh_inputs_def)

lemma max_len_fold_ge:
  "m \<le> fold (\<lambda>tokens cur_max_len.
             if int (length tokens) > cur_max_len then int (length tokens) else cur_max_len) batch m"
proof (induction batch arbitrary: m)
  case Nil
  then show ?case by simp
next
  case (Cons ts batch)
  let ?m = "if int (length ts) > m then int (length ts) else m"
  have "m \<le> ?m" by simp
  also note Cons.IH [of ?m]
  finally show ?case by simp
qed

lemma max_len_fold_nth:
  "b < length batch \<Longrightarrow> int (length (batch ! b)) \<le>
     fold (\<lambda>tokens cur_max_len.
             if int (length tokens) > cur_max_len then int (length tokens) else cur_max_len) batch m"
proof (induction batch arbitrary: m b)
  case Nil
  then show ?case by simp
next
  case (Cons ts batch)
  show ?case
  proof (cases b)
    case 0
    let ?m = "if int (length ts) > m then int (length ts) else m"
    have "int (length ts) \<le> ?m" by simp
    also have "?m \<le> fold (\<lambda>tokens cur_max_len.
             if int (length tokens) > cur_max_len then int (length tokens) else cur_max_len) batch ?m"
      by (rule max_len_fold_ge)
    finally show ?thesis using 0 by simp
  next
    case (Suc b')
    with Cons.prems have "b' < length batch" by simp
    from Cons.IH [OF this] Suc show ?thesis by simp
  qed
qed

lemma max_len_ge: "b < length batch \<Longrightarrow> int (length (batch ! b)) \<le> max_len batch"
  unfolding max_len_def by (rule max_len_fold_nth)

lemma build_graph_fills_inputs:
  assumes "d_head hparams = Some d"
    and "max_len batch \<le> n_max_tokens hparams"
    and "b < length batch" and "i < nat (max_len batch)"
  shows "\<exists>gf inp. bert_build_graph hparams False batch = Inr (Some gf) \<and>
           graph_inputs gf = Some inp \<and>
           token_layer_data inp ! (b * nat (max_len batch) + i) =
             (if i < length (batch ! b) then batch ! b ! i else 101) \<and>
           pad_mask_data inp ! (b * nat (max_len batch) + i) =
             (if i < length (batch ! b) then 1 else 0) \<and>
           sum_data inp ! (b * nat (max_len batch) + i) =
             (if i < length (batch ! b) then float_recip (float_cast (length (batch ! b))) else 0) \<and>
           pos_data inp ! (b * nat (max_len batch) + i) = int i"
proof -
  let ?L = "nat (max_len batch)"
  let ?inp = "fill_inputs batch ?L (fresh_inputs (?L * length batch))"
  let ?gf = "\<lparr>graph_len = ?L, graph_batch = length batch, graph_d_head = d,
              graph_inputs = Some ?inp\<rparr>"
  from assms(1,2) have "bert_build_graph hparams False batch = Inr (Some ?gf)"
    by (simp add: bert_build_graph_def Let_def)
  moreover have "cell_ok batch ?L ?inp b i"
    by (rule fill_inputs_cell [OF sized_fresh assms(3,4)])
  ultimately show ?thesis
    by (simp add: cell_ok_def)
qed




subsection \<open>The attention mask\<close>

text \<open>
  C6.  For a padding mask with entries 0 (padding) and 1 (valid), the attention mask
  \<open>(pad[i] * pad[j] - 1) * 100000\<close> is 0 where both positions are valid and
  \<open>-100000\<close> where one of them is padding.
\<close>

theorem attn_mask_values:
  assumes "pad_mask ! (i + L * b) = 0 \<or> pad_mask ! (i + L * b) = 1"
    and "pad_mask ! (j + L * b) = 0 \<or> pad_mask ! (j + L * b) = 1"
  shows "attn_mask pad_mask L b i j =
           (if pad_mask ! (i + L * b) = 1 \<and> pad_mask ! (j + L * b) = 1 then 0 else - 100000)"
  using assms by (auto simp: attn_mask_def)

theorem attn_mask_values_witness:
  "attn_mask [1, 1, 0] 3 0 0 1 = 0 \<and> attn_mask [1, 1, 0] 3 0 0 2 = - 100000 \<and>
   attn_mask [1, 1, 0] 3 0 2 2 = - 100000"
proof -
  have p: "([1, 1, 0] :: real list) ! (0 + 3 * 0) = 1" "([1, 1, 0] :: real list) ! (1 + 3 * 0) = 1"
    "([1, 1, 0] :: real list) ! (2 + 3 * 0) = 0"
    by simp_all
  from p have a: "attn_mask [1, 1, 0] 3 0 0 1 = 0"
    using attn_mask_values [of "[1, 1, 0]" 0 3 0 1] by simp
  from p have b: "attn_mask [1, 1, 0] 3 0 0 2 = - 100000"
    using attn_mask_values [of "[1, 1, 0]" 0 3 0 2] by simp
  from p have c: "attn_mask [1, 1, 0] 3 0 2 2 = - 100000"
    using attn_mask_values [of "[1, 1, 0]" 2 3 0 2] by simp
  from a b c show ?thesis by simp
qed

text \<open>For the mask the builder writes, validity is \<open>i < n_b\<close>.\<close>

lemma attn_mask_of_batch:
  assumes "d_head hparams = Some d"
    and "max_len batch \<le> n_max_tokens hparams"
    and "b < length batch" and "i < nat (max_len batch)" and "j < nat (max_len batch)"
  shows "\<exists>gf inp. bert_build_graph hparams False batch = Inr (Some gf) \<and>
           graph_inputs gf = Some inp \<and>
           attn_mask (pad_mask_data inp) (nat (max_len batch)) b i j =
             (if i < length (batch ! b) \<and> j < length (batch ! b) then 0 else - 100000)"
proof -
  from build_graph_fills_inputs [OF assms(1,2,3,4)] obtain gf inp where
    g: "bert_build_graph hparams False batch = Inr (Some gf)" "graph_inputs gf = Some inp"
    and pi: "pad_mask_data inp ! (b * nat (max_len batch) + i) =
             (if i < length (batch ! b) then 1 else 0)"
    by blast
  from build_graph_fills_inputs [OF assms(1,2,3,5)] g obtain
    pj: "pad_mask_data inp ! (b * nat (max_len batch) + j) =
             (if j < length (batch ! b) then 1 else 0)"
    by auto
  from pi pj have "attn_mask (pad_mask_data inp) (nat (max_len batch)) b i j =
             (if i < length (batch ! b) \<and> j < length (batch ! b) then 0 else - 100000)"
    by (simp add: attn_mask_def add.commute mult.commute)
  with g show ?thesis by blast
qed

subsection \<open>A batch longer than the model allows\<close>

lemma forward_batch_null_graph:
  assumes "d_head hparams = Some d" and "max_len batch > n_max_tokens hparams"
  shows "bert_build_graph hparams measure_mode batch = Inr None"
    and "bert_forward_batch compute hparams batch = Inl Null_dereference"
  using assms by (simp_all add: bert_build_graph_def bert_forward_batch_def Let_def)

text \<open>
  C7 (a batch with \<open>L > n_max_tokens\<close> is rejected and the context stays usable).
  \<open>bert_build_graph\<close> does reject the batch: it returns \<open>nullptr\<close>, in or out of
  measure mode.  \<open>bert_forward_batch\<close> does not test for it and dereferences the null
  graph, which is undefined behaviour, not a rejected call.
\<close>

theorem bert_forward_batch_too_long:
  assumes "d_head hparams = Some d" and "max_len batch > n_max_tokens hparams"
  shows "bert_build_graph hparams measure_mode batch = Inr None \<and>
         bert_forward_batch compute hparams batch = Inl Null_dereference"
  using forward_batch_null_graph [OF assms] by (rule conjI)

theorem bert_forward_batch_too_long_witness:
  "bert_build_graph example_hparams False [[101, 7, 8, 102]] = Inr None \<and>
   bert_forward_batch (\<lambda>gf. []) example_hparams [[101, 7, 8, 102]] = Inl Null_dereference"
proof -
  have d: "d_head example_hparams = Some 32"
    by (simp add: d_head_def example_hparams_def c_div_def)
  have m: "max_len [[101, 7, 8, 102]] > n_max_tokens example_hparams"
    by (simp add: max_len_def example_hparams_def)
  from bert_forward_batch_too_long [OF d m] show ?thesis by blast
qed

text \<open>
  Such a batch comes out of the library's own \<open>bert_encode_batch\<close>: with the cap 3 of
  \<open>example_hparams\<close>, a text of five one-letter words gives seven ids.
\<close>

lemma bert_encode_batch_null_graph:
  "bert_encode_batch compute example_hparams example_vocab [''a b a b a''] =
     Inl Null_dereference"
proof -
  have t: "bert_tokenize example_vocab ''a b a b a'' 3 = [101, 7, 100, 100, 100, 100, 102]"
    by code_simp
  have d: "d_head example_hparams = Some 32"
    by (simp add: d_head_def example_hparams_def c_div_def)
  have m: "max_len [[101, 7, 100, 100, 100, 100, 102]] > n_max_tokens example_hparams"
    by (simp add: max_len_def example_hparams_def)
  have n: "n_max_tokens example_hparams = 3" by (simp add: example_hparams_def)
  from forward_batch_null_graph(2) [OF d m, where compute = compute] t n show ?thesis
    by (simp add: bert_encode_batch_def)
qed

end
